theory Spec2Isabelle
  imports Main
begin

section \<open>Strings of code points\<close>

text \<open>
  A Python \<open>str\<close> is a sequence of Unicode code points.  A code point is modelled
  as a natural number and a string as a list of code points; ASCII literals of the
  source are written as HOL string literals and converted with \<open>ustr\<close>.
\<close>

type_synonym uchar = nat
type_synonym ustr = "nat list"

definition ustr :: "string \<Rightarrow> ustr" where
  "ustr s = map of_char s"

text \<open>
  \<open>str.isspace\<close> for one code point; \<open>str.strip()\<close> and the class \<open>\s\<close> of
  \<open>re\<close> on a \<open>str\<close> pattern use this same set: TAB, LF, VT, FF, CR, the four
  separators U+001C..U+001F, SPACE, U+0085, U+00A0, U+1680, U+2000..U+200A, U+2028,
  U+2029, U+202F, U+205F and U+3000.
\<close>

definition is_space :: "uchar \<Rightarrow> bool" where
  "is_space c \<longleftrightarrow>
     (9 \<le> c \<and> c \<le> 13) \<or> (28 \<le> c \<and> c \<le> 32) \<or> c = 133 \<or> c = 160 \<or> c = 5760 \<or>
     (8192 \<le> c \<and> c \<le> 8202) \<or> c = 8232 \<or> c = 8233 \<or> c = 8239 \<or> c = 8287 \<or> c = 12288"

text \<open>\<open>s.strip()\<close>: leading and trailing whitespace removed.\<close>

definition lstrip :: "ustr \<Rightarrow> ustr" where
  "lstrip s = dropWhile is_space s"

definition rstrip :: "ustr \<Rightarrow> ustr" where
  "rstrip s = rev (dropWhile is_space (rev s))"

definition strip :: "ustr \<Rightarrow> ustr" where
  "strip s = rstrip (lstrip s)"

text \<open>
  \<open>re.sub(r"\s+", " ", s)\<close>: every maximal run of whitespace is replaced by one
  SPACE (code point 32); everything else is copied.
\<close>

function sub_ws :: "ustr \<Rightarrow> ustr" where
  "sub_ws [] = []"
| "sub_ws (x # xs) =
     (if is_space x then 32 # sub_ws (dropWhile is_space xs) else x # sub_ws xs)"
  by pat_completeness auto
termination
  by (relation "measure length") (auto simp: le_imp_less_Suc length_dropWhile_le)

text \<open>\<open>s[b:e]\<close> for \<open>0 \<le> b \<le> e \<le> len(s)\<close>.\<close>

definition slice :: "ustr \<Rightarrow> nat \<Rightarrow> nat \<Rightarrow> ustr" where
  "slice w b e = take (e - b) (drop b w)"

section \<open>The pattern and the backtracking matcher\<close>

text \<open>
  The constructs of the pattern
  \<^verbatim>\<open>Intent:\s*(?P<intent>.+?)\s*Node:\s*(?P<node>.+?)\s*Reason:\s*(?P<reason>.+)$\<close>
  compiled with \<open>re.DOTALL | re.IGNORECASE\<close>: a literal character, \<open>\s*\<close>,
  a group boundary (it records the current position), \<open>.+?\<close>, \<open>.+\<close> and \<open>$\<close>.
\<close>

datatype item = Lit uchar | SpaceStar | Mark | AnyPlusLazy | AnyPlusGreedy | Eos

definition to_lower_ascii :: "uchar \<Rightarrow> uchar" where
  "to_lower_ascii c = (if 65 \<le> c \<and> c \<le> 90 then c + 32 else c)"

text \<open>
  A literal ASCII pattern character \<open>c\<close> under \<open>IGNORECASE\<close> matches the subject
  character \<open>x\<close> when the two are the same ASCII letter in either case, and, as \<open>re\<close>
  does for \<open>str\<close> patterns, \<open>i\<close> also matches U+0130 and U+0131, \<open>s\<close> matches
  U+017F and \<open>k\<close> matches U+212A.  A character that is no letter matches itself only.
\<close>

definition lit_ic :: "uchar \<Rightarrow> uchar \<Rightarrow> bool" where
  "lit_ic c x =
     (let lo = to_lower_ascii c in
      to_lower_ascii x = lo \<or> (lo = 105 \<and> (x = 304 \<or> x = 305)) \<or> (lo = 115 \<and> x = 383) \<or>
      (lo = 107 \<and> x = 8490))"

text \<open>
  \<open>match_here p s i ms\<close> matches the pattern \<open>p\<close> against the rest \<open>s\<close> of the
  subject, which starts at position \<open>i\<close>; \<open>ms\<close> are the positions recorded so far,
  the latest first.  Alternatives are tried in the order of a backtracking matcher:
  a greedy repetition tries one more character first, a lazy one tries the rest of the
  pattern first.  \<open>$\<close> (no \<open>MULTILINE\<close>) holds at the end of the subject and just
  before a final newline.
\<close>

fun match_here :: "item list \<Rightarrow> ustr \<Rightarrow> nat \<Rightarrow> nat list \<Rightarrow> nat list option" where
  "match_here [] s i ms = Some ms"
| "match_here (Lit c # p) [] i ms = None"
| "match_here (Lit c # p) (x # xs) i ms =
     (if lit_ic c x then match_here p xs (Suc i) ms else None)"
| "match_here (SpaceStar # p) [] i ms = match_here p [] i ms"
| "match_here (SpaceStar # p) (x # xs) i ms =
     (if is_space x then
        (case match_here (SpaceStar # p) xs (Suc i) ms of
           Some r \<Rightarrow> Some r
         | None \<Rightarrow> match_here p (x # xs) i ms)
      else match_here p (x # xs) i ms)"
| "match_here (Mark # p) s i ms = match_here p s i (i # ms)"
| "match_here (AnyPlusLazy # p) [] i ms = None"
| "match_here (AnyPlusLazy # p) (x # xs) i ms =
     (case match_here p xs (Suc i) ms of
        Some r \<Rightarrow> Some r
      | None \<Rightarrow> match_here (AnyPlusLazy # p) xs (Suc i) ms)"
| "match_here (AnyPlusGreedy # p) [] i ms = None"
| "match_here (AnyPlusGreedy # p) (x # xs) i ms =
     (case match_here (AnyPlusGreedy # p) xs (Suc i) ms of
        Some r \<Rightarrow> Some r
      | None \<Rightarrow> match_here p xs (Suc i) ms)"
| "match_here (Eos # p) s i ms =
     (if s = [] \<or> s = [10] then match_here p s i ms else None)"

text \<open>\<open>re.search\<close>: the match at the leftmost start position that has one.\<close>

fun re_search :: "item list \<Rightarrow> ustr \<Rightarrow> nat \<Rightarrow> nat list option" where
  "re_search p [] i = match_here p [] i []"
| "re_search p (x # xs) i =
     (case match_here p (x # xs) i [] of
        Some r \<Rightarrow> Some r
      | None \<Rightarrow> re_search p xs (Suc i))"

definition lits :: "string \<Rightarrow> item list" where
  "lits s = map (\<lambda>c. Lit (of_char c)) s"

definition pattern :: "item list" where
  "pattern =
     lits ''Intent:'' @ [SpaceStar, Mark, AnyPlusLazy, Mark, SpaceStar] @
     lits ''Node:'' @ [SpaceStar, Mark, AnyPlusLazy, Mark, SpaceStar] @
     lits ''Reason:'' @ [SpaceStar, Mark, AnyPlusGreedy, Mark, Eos]"

text \<open>
  \<open>match.group(k)\<close>: the \<open>k\<close>-th group (\<open>intent\<close>, \<open>node\<close>, \<open>reason\<close> are groups 1, 2
  and 3) is the slice between its two recorded positions, \<open>None\<close> for a group with no
  recorded positions.
\<close>

definition group :: "ustr \<Rightarrow> nat list \<Rightarrow> nat \<Rightarrow> ustr option" where
  "group w ms k =
     (let m = rev ms in
      if 1 \<le> k \<and> 2 * k \<le> length m then Some (slice w (m ! (2 * k - 2)) (m ! (2 * k - 1)))
      else None)"

section \<open>The field extractor\<close>

datatype py_error = AttributeError

type_synonym extraction = "bool \<times> ustr option \<times> ustr option \<times> ustr option"

text \<open>
  Calling \<open>.strip()\<close> on the \<open>None\<close> of a group that took no part in the match
  raises \<open>AttributeError\<close>.
\<close>

definition validate_and_extract_llm_content :: "ustr \<Rightarrow> py_error + extraction" where
  "validate_and_extract_llm_content content =
     (let cleaned_content = sub_ws (strip content) in
      case re_search pattern cleaned_content 0 of
        None \<Rightarrow> Inr (False, None, None, None)
      | Some m \<Rightarrow>
          (case (group cleaned_content m 1, group cleaned_content m 2, group cleaned_content m 3) of
             (Some gi, Some gn, Some gr) \<Rightarrow>
               (let intent_content = strip gi;
                    node_content = strip gn;
                    reason_content = strip gr
                in if \<not> (intent_content \<noteq> [] \<and> node_content \<noteq> [] \<and> reason_content \<noteq> [])
                   then Inr (False, None, None, None)
                   else Inr (True, Some intent_content, Some node_content, Some reason_content))
           | _ \<Rightarrow> Inl AttributeError))"

section \<open>The reward scorer\<close>

text \<open>
  The ground truth is a single string, split at its commas, or a sequence of strings
  already split.
\<close>

datatype ground_truth = GtStr ustr | GtSeq "ustr list"

text \<open>\<open>s.split(",")\<close>: the pieces between the commas; the empty string gives one empty piece.\<close>

fun split_comma :: "ustr \<Rightarrow> ustr list" where
  "split_comma [] = [[]]"
| "split_comma (x # xs) =
     (if x = 44 then [] # split_comma xs
      else (case split_comma xs of [] \<Rightarrow> [[x]] | piece # pieces \<Rightarrow> (x # piece) # pieces))"

definition candidates :: "ground_truth \<Rightarrow> ustr list" where
  "candidates ground_truth = (case ground_truth of GtStr g \<Rightarrow> split_comma g | GtSeq xs \<Rightarrow> xs)"

text \<open>
  \<open>str.lower\<close> is Python's Unicode lower-casing; its table is not part of the
  repository, so the scorer takes it as the parameter \<open>lower\<close>.  \<open>lower_ascii\<close> is
  what it does on ASCII text.
\<close>

definition lower_ascii :: "ustr \<Rightarrow> ustr" where
  "lower_ascii s = map to_lower_ascii s"

definition true_nodes :: "(ustr \<Rightarrow> ustr) \<Rightarrow> ground_truth \<Rightarrow> ustr set" where
  "true_nodes lower ground_truth = set (map (\<lambda>i_node. lower (strip i_node)) (candidates ground_truth))"

record 'n score_result =
  score :: 'n
  acc :: bool
  pred :: ustr

text \<open>The status tags: U+274C is the cross mark, U+2705 the check mark.\<close>

definition tag_format_fail :: ustr where
  "tag_format_fail = [91, 10060] @ ustr ''Format]''"

definition tag_format_ok_node_ok :: ustr where
  "tag_format_ok_node_ok = [91, 9989] @ ustr ''Format'' @ [9989] @ ustr ''Node]''"

definition tag_format_ok_node_fail :: ustr where
  "tag_format_ok_node_fail = [91, 9989] @ ustr ''Format'' @ [10060] @ ustr ''Node]''"

text \<open>A value in an f-string: \<open>None\<close> is printed as the word \<open>None\<close>.\<close>

definition fmt :: "ustr option \<Rightarrow> ustr" where
  "fmt v = (case v of None \<Rightarrow> ustr ''None'' | Some s \<Rightarrow> s)"

definition template :: "ustr option \<Rightarrow> ustr option \<Rightarrow> ustr option \<Rightarrow> ustr" where
  "template intent node reason =
     ustr ''Intent: '' @ fmt intent @ [10] @ ustr ''Node: '' @ fmt node @ [10] @
     ustr ''Reason: '' @ fmt reason"

text \<open>
  The weights are values of any type with addition and negation; \<open>node.lower()\<close> on
  \<open>None\<close> raises \<open>AttributeError\<close>.
\<close>

definition compute_score ::
  "(ustr \<Rightarrow> ustr) \<Rightarrow> ustr \<Rightarrow> ground_truth \<Rightarrow> 'n::{plus,uminus} \<Rightarrow> 'n \<Rightarrow> py_error + 'n score_result" where
  "compute_score lower solution_str ground_truth std_format std_acc =
     (case validate_and_extract_llm_content solution_str of
        Inl e \<Rightarrow> Inl e
      | Inr (format_flag, intent, node, reason) \<Rightarrow>
          if \<not> format_flag then
            (let format_score = - std_format; acc_score = - std_acc
             in Inr \<lparr>score = acc_score + format_score, acc = False,
                     pred = tag_format_fail @ solution_str\<rparr>)
          else
            (case node of
               None \<Rightarrow> Inl AttributeError
             | Some nd \<Rightarrow>
                 (let format_score = std_format in
                  if lower nd \<in> true_nodes lower ground_truth then
                    Inr \<lparr>score = std_acc + format_score, acc = True,
                         pred = tag_format_ok_node_ok @ template intent node reason\<rparr>
                  else
                    Inr \<lparr>score = - std_acc + format_score, acc = False,
                         pred = tag_format_ok_node_fail @ template intent node reason\<rparr>)))"

section \<open>Notions used to state the properties\<close>

text \<open>The three labels as the pattern writes them, each with its colon.\<close>

definition intent_label :: ustr where
  "intent_label = ustr ''Intent:''"

definition node_label :: ustr where
  "node_label = ustr ''Node:''"

definition reason_label :: ustr where
  "reason_label = ustr ''Reason:''"

text \<open>\<open>label_at lab s\<close>: the text \<open>s\<close> begins with the label, in any letter-case.\<close>

fun label_at :: "ustr \<Rightarrow> ustr \<Rightarrow> bool" where
  "label_at [] s = True"
| "label_at (c # cs) [] = False"
| "label_at (c # cs) (x # xs) = (lit_ic c x \<and> label_at cs xs)"

text \<open>
  \<open>first_label lab s\<close> is the position of the first occurrence of the label in \<open>s\<close>,
  \<open>find_label lab s\<close> the text that follows that occurrence.
\<close>

fun first_label :: "ustr \<Rightarrow> ustr \<Rightarrow> nat option" where
  "first_label lab [] = (if label_at lab [] then Some 0 else None)"
| "first_label lab (x # xs) =
     (if label_at lab (x # xs) then Some 0 else map_option Suc (first_label lab xs))"

fun find_label :: "ustr \<Rightarrow> ustr \<Rightarrow> ustr option" where
  "find_label lab [] = (if label_at lab [] then Some [] else None)"
| "find_label lab (x # xs) =
     (if label_at lab (x # xs) then Some (drop (length lab) (x # xs)) else find_label lab xs)"

text \<open>
  The labels occur in the order Intent, Node, Reason: an \<open>Intent:\<close>, after it a
  \<open>Node:\<close>, after that a \<open>Reason:\<close>.  Taking the first occurrence each time loses no
  case (lemma \<open>labels_in_order_iff\<close>).
\<close>

definition labels_in_order :: "ustr \<Rightarrow> bool" where
  "labels_in_order s =
     (case find_label intent_label s of
        None \<Rightarrow> False
      | Some r1 \<Rightarrow>
          (case find_label node_label r1 of
             None \<Rightarrow> False
           | Some r2 \<Rightarrow> find_label reason_label r2 \<noteq> None))"

definition all_space :: "ustr \<Rightarrow> bool" where
  "all_space s = list_all is_space s"

text \<open>A label none of whose characters can match a whitespace character.\<close>

definition nonspace_label :: "ustr \<Rightarrow> bool" where
  "nonspace_label lab \<longleftrightarrow> lab \<noteq> [] \<and> (\<forall>c\<in>set lab. \<forall>x. lit_ic c x \<longrightarrow> \<not> is_space x)"

text \<open>Two characters that differ at most in the case of an ASCII letter.\<close>

definition case_var :: "uchar \<Rightarrow> uchar \<Rightarrow> bool" where
  "case_var x y = (to_lower_ascii x = to_lower_ascii y)"

text \<open>No two whitespace characters next to each other.\<close>

fun no_ws_run :: "ustr \<Rightarrow> bool" where
  "no_ws_run (x # y # zs) = (\<not> (is_space x \<and> is_space y) \<and> no_ws_run (y # zs))"
| "no_ws_run zs = True"

text \<open>\<open>s'\<close> is \<open>s\<close> with the case of some ASCII letters changed.\<close>

definition recased :: "ustr \<Rightarrow> ustr \<Rightarrow> bool" where
  "recased s s' = list_all2 case_var s s'"

text \<open>
  The text captured by the three groups of the match on the normalised \<open>s\<close> is the
  same in the normalised \<open>s'\<close>: what differs lies in the label tokens or before the
  match.
\<close>

definition fields_untouched :: "ustr \<Rightarrow> ustr \<Rightarrow> bool" where
  "fields_untouched s s' =
     (case re_search pattern (sub_ws (strip s)) 0 of
        None \<Rightarrow> True
      | Some m \<Rightarrow>
          group (sub_ws (strip s')) m 1 = group (sub_ws (strip s)) m 1 \<and>
          group (sub_ws (strip s')) m 2 = group (sub_ws (strip s)) m 2 \<and>
          group (sub_ws (strip s')) m 3 = group (sub_ws (strip s)) m 3)"

text \<open>SPACE is the only whitespace character, and never two in a row.\<close>

definition single_spaced :: "ustr \<Rightarrow> bool" where
  "single_spaced s \<longleftrightarrow> list_all (\<lambda>c. is_space c \<longrightarrow> c = 32) s \<and> no_ws_run s"

text \<open>
  A field value as the extractor returns it: not empty, no newline, SPACE the only
  whitespace character, never two in a row, none at either end.
\<close>

definition tidy :: "ustr \<Rightarrow> bool" where
  "tidy f \<longleftrightarrow>
     f \<noteq> [] \<and> 10 \<notin> set f \<and> list_all (\<lambda>c. is_space c \<longrightarrow> c = 32) f \<and> no_ws_run f \<and>
     \<not> is_space (hd f) \<and> \<not> is_space (last f)"

text \<open>\<open>sep.join(xs)\<close>, used to write a ground truth given as one string.\<close>

fun join :: "ustr \<Rightarrow> ustr list \<Rightarrow> ustr" where
  "join sep [] = []"
| "join sep [x] = x"
| "join sep (x # y # ys) = x @ sep @ join sep (y # ys)"

section \<open>Evaluation of concrete inputs\<close>

lemmas eval_defs =
  lits_def ustr_def lit_ic_def to_lower_ascii_def is_space_def strip_def rstrip_def lstrip_def
  slice_def group_def pattern_def validate_and_extract_llm_content_def Let_def

section \<open>What a match of the pattern looks like\<close>

lemma match_lits:
  "match_here (map Lit cs @ p) s i ms =
     (if label_at cs s then match_here p (drop (length cs) s) (i + length cs) ms else None)"
proof (induction cs arbitrary: s i)
  case Nil
  then show ?case by simp
next
  case (Cons c cs)
  then show ?case by (cases s) auto
qed

lemma space_star_sound:
  "match_here (SpaceStar # p) s i ms = Some r \<Longrightarrow>
     \<exists>k\<le>length s. (\<forall>x\<in>set (take k s). is_space x) \<and> match_here p (drop k s) (i + k) ms = Some r"
proof (induction s arbitrary: i)
  case Nil
  then show ?case by simp
next
  case (Cons x xs)
  show ?case
  proof (cases "is_space x \<and> match_here (SpaceStar # p) xs (Suc i) ms = Some r")
    case True
    with Cons.IH [of "Suc i"] obtain k where
      k: "k \<le> length xs" "\<forall>y\<in>set (take k xs). is_space y"
         "match_here p (drop k xs) (Suc i + k) ms = Some r"
      by blast
    with True show ?thesis
      by (intro exI [of _ "Suc k"]) simp
  next
    case False
    with Cons.prems have "match_here p (x # xs) i ms = Some r"
      by (auto split: if_splits option.splits)
    then show ?thesis
      by (intro exI [of _ 0]) simp
  qed
qed

lemma lazy_sound:
  "match_here (AnyPlusLazy # p) s i ms = Some r \<Longrightarrow>
     \<exists>k. 1 \<le> k \<and> k \<le> length s \<and> match_here p (drop k s) (i + k) ms = Some r"
proof (induction s arbitrary: i)
  case Nil
  then show ?case by simp
next
  case (Cons x xs)
  show ?case
  proof (cases "match_here p xs (Suc i) ms")
    case None
    with Cons.prems have "match_here (AnyPlusLazy # p) xs (Suc i) ms = Some r" by simp
    with Cons.IH [of "Suc i"] obtain k where
      "1 \<le> k" "k \<le> length xs" "match_here p (drop k xs) (Suc i + k) ms = Some r"
      by blast
    then show ?thesis
      by (intro exI [of _ "Suc k"]) simp
  next
    case (Some r')
    with Cons.prems have "r' = r" by simp
    with Some show ?thesis
      by (intro exI [of _ 1]) simp
  qed
qed

lemma greedy_to_end:
  "match_here [AnyPlusGreedy, Mark, Eos] s i ms =
     (if s = [] then None else Some ((i + length s) # ms))"
  by (induction s arbitrary: i) auto


lemma lits_map: "lits s = map Lit (ustr s)"
  by (simp add: lits_def ustr_def)

lemma label_at_length: "label_at cs s \<Longrightarrow> length cs \<le> length s"
  by (induction cs s rule: label_at.induct) auto

lemma field_segment:
  assumes "match_here ([SpaceStar, Mark, AnyPlusLazy, Mark, SpaceStar] @ map Lit cs @ p) s i ms = Some r"
  shows "\<exists>k n k'. (\<forall>x\<in>set (take k s). is_space x) \<and> 1 \<le> n \<and>
           (\<forall>x\<in>set (take k' (drop (k + n) s)). is_space x) \<and>
           label_at cs (drop (k + n + k') s) \<and>
           match_here p (drop (k + n + k' + length cs) s) (i + (k + n + k' + length cs))
             ((i + (k + n)) # (i + k) # ms) = Some r"
proof -
  from assms obtain k where k: "\<forall>x\<in>set (take k s). is_space x"
    and m1: "match_here (AnyPlusLazy # Mark # SpaceStar # map Lit cs @ p) (drop k s) (i + k)
               ((i + k) # ms) = Some r"
    using space_star_sound [of "Mark # AnyPlusLazy # Mark # SpaceStar # map Lit cs @ p" s i ms r]
    by auto
  from lazy_sound [OF m1] obtain n where n: "1 \<le> n"
    and m2: "match_here (SpaceStar # map Lit cs @ p) (drop (k + n) s) (i + (k + n))
               ((i + (k + n)) # (i + k) # ms) = Some r"
    by (auto simp: ac_simps)
  from space_star_sound [OF m2] obtain k' where k': "\<forall>x\<in>set (take k' (drop (k + n) s)). is_space x"
    and m3: "match_here (map Lit cs @ p) (drop (k + n + k') s) (i + (k + n + k'))
               ((i + (k + n)) # (i + k) # ms) = Some r"
    by (auto simp: ac_simps)
  from m3 have l: "label_at cs (drop (k + n + k') s)"
    and m4: "match_here p (drop (k + n + k' + length cs) s) (i + (k + n + k' + length cs))
               ((i + (k + n)) # (i + k) # ms) = Some r"
    by (auto simp: match_lits ac_simps split: if_splits)
  from k n k' l m4 show ?thesis by blast
qed

lemma last_segment:
  assumes "match_here [SpaceStar, Mark, AnyPlusGreedy, Mark, Eos] s i ms = Some r"
  shows "\<exists>k. (\<forall>x\<in>set (take k s). is_space x) \<and> k < length s \<and> r = (i + length s) # (i + k) # ms"
proof -
  from space_star_sound [OF assms] obtain k where k: "k \<le> length s" "\<forall>x\<in>set (take k s). is_space x"
    and m: "match_here [AnyPlusGreedy, Mark, Eos] (drop k s) (i + k) ((i + k) # ms) = Some r"
    by auto
  from m have "drop k s \<noteq> []" "r = (i + k + length (drop k s)) # (i + k) # ms"
    by (auto simp: greedy_to_end split: if_splits)
  with k show ?thesis by (intro exI [of _ k]) auto
qed

lemma pattern_split:
  "pattern = map Lit intent_label @ [SpaceStar, Mark, AnyPlusLazy, Mark, SpaceStar] @
     map Lit node_label @ [SpaceStar, Mark, AnyPlusLazy, Mark, SpaceStar] @
     map Lit reason_label @ [SpaceStar, Mark, AnyPlusGreedy, Mark, Eos]"
  by (simp only: pattern_def lits_map intent_label_def node_label_def reason_label_def)

lemma label_lengths:
  "length intent_label = 7" "length node_label = 5" "length reason_label = 7"
  by (simp_all add: intent_label_def node_label_def reason_label_def ustr_def)

lemma pattern_shape:
  assumes "match_here pattern s i [] = Some r"
  shows "\<exists>b1 e1 l2 b2 e2 l3 b3.
           label_at intent_label s \<and> 7 \<le> b1 \<and> all_space (slice s 7 b1) \<and> b1 < e1 \<and>
           e1 \<le> l2 \<and> all_space (slice s e1 l2) \<and> label_at node_label (drop l2 s) \<and>
           l2 + 5 \<le> b2 \<and> all_space (slice s (l2 + 5) b2) \<and> b2 < e2 \<and>
           e2 \<le> l3 \<and> all_space (slice s e2 l3) \<and> label_at reason_label (drop l3 s) \<and>
           l3 + 7 \<le> b3 \<and> all_space (slice s (l3 + 7) b3) \<and> b3 < length s \<and>
           r = [i + length s, i + b3, i + e2, i + b2, i + e1, i + b1]"
proof -
  let ?P3 = "[SpaceStar, Mark, AnyPlusGreedy, Mark, Eos]"
  let ?P2 = "map Lit reason_label @ ?P3"
  let ?P1 = "map Lit node_label @ [SpaceStar, Mark, AnyPlusLazy, Mark, SpaceStar] @ ?P2"
  from assms have "(if label_at intent_label s
      then match_here ([SpaceStar, Mark, AnyPlusLazy, Mark, SpaceStar] @ ?P1) (drop 7 s) (i + 7) []
      else None) = Some r"
    unfolding pattern_split by (simp only: match_lits label_lengths)
  then have l1: "label_at intent_label s"
    and m1: "match_here ([SpaceStar, Mark, AnyPlusLazy, Mark, SpaceStar] @ ?P1) (drop 7 s) (i + 7) [] = Some r"
    by (simp_all split: if_splits)
  from field_segment [OF m1] obtain k1 n1 k2 where
    s1: "\<forall>x\<in>set (take k1 (drop 7 s)). is_space x" and n1: "1 \<le> n1"
    and s2: "\<forall>x\<in>set (take k2 (drop (k1 + n1) (drop 7 s))). is_space x"
    and l2: "label_at node_label (drop (k1 + n1 + k2) (drop 7 s))"
    and m2: "match_here ([SpaceStar, Mark, AnyPlusLazy, Mark, SpaceStar] @ ?P2)
               (drop (k1 + n1 + k2 + length node_label) (drop 7 s))
               (i + 7 + (k1 + n1 + k2 + length node_label))
               [i + 7 + (k1 + n1), i + 7 + k1] = Some r"
    by blast
  from field_segment [OF m2] obtain k3 n2 k4 where
    s3: "\<forall>x\<in>set (take k3 (drop (k1 + n1 + k2 + length node_label) (drop 7 s))). is_space x"
    and n2: "1 \<le> n2"
    and s4: "\<forall>x\<in>set (take k4 (drop (k3 + n2) (drop (k1 + n1 + k2 + length node_label) (drop 7 s)))). is_space x"
    and l3: "label_at reason_label (drop (k3 + n2 + k4) (drop (k1 + n1 + k2 + length node_label) (drop 7 s)))"
    and m3: "match_here ?P3
               (drop (k3 + n2 + k4 + length reason_label) (drop (k1 + n1 + k2 + length node_label) (drop 7 s)))
               (i + 7 + (k1 + n1 + k2 + length node_label) + (k3 + n2 + k4 + length reason_label))
               [i + 7 + (k1 + n1 + k2 + length node_label) + (k3 + n2),
                i + 7 + (k1 + n1 + k2 + length node_label) + k3,
                i + 7 + (k1 + n1), i + 7 + k1] = Some r"
    by blast
  from last_segment [OF m3] obtain k5 where
    s5: "\<forall>x\<in>set (take k5 (drop (k3 + n2 + k4 + length reason_label) (drop (k1 + n1 + k2 + length node_label) (drop 7 s)))). is_space x"
    and k5: "k5 < length (drop (k3 + n2 + k4 + length reason_label) (drop (k1 + n1 + k2 + length node_label) (drop 7 s)))"
    and r: "r = [i + 7 + (k1 + n1 + k2 + length node_label) + (k3 + n2 + k4 + length reason_label) +
                   length (drop (k3 + n2 + k4 + length reason_label) (drop (k1 + n1 + k2 + length node_label) (drop 7 s))),
                 i + 7 + (k1 + n1 + k2 + length node_label) + (k3 + n2 + k4 + length reason_label) + k5,
                 i + 7 + (k1 + n1 + k2 + length node_label) + (k3 + n2),
                 i + 7 + (k1 + n1 + k2 + length node_label) + k3,
                 i + 7 + (k1 + n1), i + 7 + k1]"
    by blast
  define b1 where "b1 = 7 + k1"
  define e1 where "e1 = b1 + n1"
  define l2' where "l2' = e1 + k2"
  define b2 where "b2 = l2' + 5 + k3"
  define e2 where "e2 = b2 + n2"
  define l3' where "l3' = e2 + k4"
  define b3 where "b3 = l3' + 7 + k5"
  note defs = b1_def e1_def l2'_def b2_def e2_def l3'_def b3_def
  have a1: "all_space (slice s 7 b1)"
    using s1 by (simp add: all_space_def slice_def list_all_iff b1_def)
  have a2: "all_space (slice s e1 l2')"
    using s2 by (simp add: all_space_def slice_def list_all_iff defs ac_simps)
  have a3: "all_space (slice s (l2' + 5) b2)"
    using s3 by (simp add: all_space_def slice_def list_all_iff defs ac_simps label_lengths)
  have a4: "all_space (slice s e2 l3')"
    using s4 by (simp add: all_space_def slice_def list_all_iff defs ac_simps label_lengths)
  have a5: "all_space (slice s (l3' + 7) b3)"
    using s5 by (simp add: all_space_def slice_def list_all_iff defs ac_simps label_lengths)
  have c2: "label_at node_label (drop l2' s)"
    using l2 by (simp add: defs ac_simps)
  have c3: "label_at reason_label (drop l3' s)"
    using l3 by (simp add: defs ac_simps label_lengths)
  have lt: "b3 < length s"
    using k5 by (simp add: defs label_lengths)
  have rr: "r = [i + length s, i + b3, i + e2, i + b2, i + e1, i + b1]"
    using r k5 by (simp add: defs label_lengths)
  have ords: "7 \<le> b1" "b1 < e1" "e1 \<le> l2'" "l2' + 5 \<le> b2" "b2 < e2" "e2 \<le> l3'" "l3' + 7 \<le> b3"
    using n1 n2 by (simp_all add: defs)
  from l1 a1 a2 a3 a4 a5 c2 c3 lt rr ords show ?thesis by blast
qed

lemma re_search_sound:
  "re_search p s i = Some r \<Longrightarrow>
     \<exists>j\<le>length s. match_here p (drop j s) (i + j) [] = Some r"
proof (induction s arbitrary: i)
  case Nil
  then show ?case by simp
next
  case (Cons x xs)
  show ?case
  proof (cases "match_here p (x # xs) i []")
    case None
    with Cons.prems have "re_search p xs (Suc i) = Some r" by simp
    from Cons.IH [OF this] obtain j where "j \<le> length xs"
      "match_here p (drop j xs) (Suc i + j) [] = Some r" by blast
    then show ?thesis by (intro exI [of _ "Suc j"]) simp
  next
    case (Some r')
    with Cons.prems show ?thesis by (intro exI [of _ 0]) simp
  qed
qed

lemma search_shape:
  assumes "re_search pattern w 0 = Some r"
  shows "\<exists>j b1 e1 l2 b2 e2 l3 b3.
           label_at intent_label (drop j w) \<and> j + 7 \<le> b1 \<and> all_space (slice w (j + 7) b1) \<and>
           b1 < e1 \<and> e1 \<le> l2 \<and> all_space (slice w e1 l2) \<and> label_at node_label (drop l2 w) \<and>
           l2 + 5 \<le> b2 \<and> all_space (slice w (l2 + 5) b2) \<and> b2 < e2 \<and>
           e2 \<le> l3 \<and> all_space (slice w e2 l3) \<and> label_at reason_label (drop l3 w) \<and>
           l3 + 7 \<le> b3 \<and> all_space (slice w (l3 + 7) b3) \<and> b3 < length w \<and>
           r = [length w, b3, e2, b2, e1, b1]"
proof -
  from re_search_sound [OF assms] obtain j where j: "j \<le> length w"
    and m: "match_here pattern (drop j w) j [] = Some r" by auto
  from pattern_shape [OF m] obtain b1 e1 l2 b2 e2 l3 b3 where sh:
    "label_at intent_label (drop j w)" "7 \<le> b1" "all_space (slice (drop j w) 7 b1)" "b1 < e1"
    "e1 \<le> l2" "all_space (slice (drop j w) e1 l2)" "label_at node_label (drop l2 (drop j w))"
    "l2 + 5 \<le> b2" "all_space (slice (drop j w) (l2 + 5) b2)" "b2 < e2"
    "e2 \<le> l3" "all_space (slice (drop j w) e2 l3)" "label_at reason_label (drop l3 (drop j w))"
    "l3 + 7 \<le> b3" "all_space (slice (drop j w) (l3 + 7) b3)" "b3 < length (drop j w)"
    "r = [j + length (drop j w), j + b3, j + e2, j + b2, j + e1, j + b1]"
    by blast
  have sl: "slice (drop j w) a b = slice w (j + a) (j + b)" for a b
    by (simp add: slice_def add.commute)
  from sh j have
    "label_at intent_label (drop j w)" "j + 7 \<le> j + b1" "all_space (slice w (j + 7) (j + b1))"
    "j + b1 < j + e1" "j + e1 \<le> j + l2" "all_space (slice w (j + e1) (j + l2))"
    "label_at node_label (drop (j + l2) w)" "(j + l2) + 5 \<le> j + b2"
    "all_space (slice w ((j + l2) + 5) (j + b2))" "j + b2 < j + e2" "j + e2 \<le> j + l3"
    "all_space (slice w (j + e2) (j + l3))" "label_at reason_label (drop (j + l3) w)"
    "(j + l3) + 7 \<le> j + b3" "all_space (slice w ((j + l3) + 7) (j + b3))" "j + b3 < length w"
    "r = [length w, j + b3, j + e2, j + b2, j + e1, j + b1]"
    by (simp_all add: sl ac_simps)
  then show ?thesis by blast
qed

lemma search_groups:
  assumes "re_search pattern w 0 = Some r"
  shows "\<exists>b1 e1 b2 e2 b3. r = [length w, b3, e2, b2, e1, b1] \<and>
           group w r 1 = Some (slice w b1 e1) \<and> group w r 2 = Some (slice w b2 e2) \<and>
           group w r 3 = Some (drop b3 w)"
proof -
  from search_shape [OF assms] obtain b1 e1 b2 e2 b3 where
    r: "r = [length w, b3, e2, b2, e1, b1]" by blast
  have "group w r 1 = Some (slice w b1 e1)" "group w r 2 = Some (slice w b2 e2)"
    "group w r 3 = Some (drop b3 w)"
    by (simp_all add: r group_def slice_def)
  with r show ?thesis by blast
qed

lemma validate_cases:
  "validate_and_extract_llm_content content = Inr (False, None, None, None) \<or>
   (\<exists>m gi gn gr. re_search pattern (sub_ws (strip content)) 0 = Some m \<and>
      group (sub_ws (strip content)) m 1 = Some gi \<and>
      group (sub_ws (strip content)) m 2 = Some gn \<and>
      group (sub_ws (strip content)) m 3 = Some gr \<and>
      strip gi \<noteq> [] \<and> strip gn \<noteq> [] \<and> strip gr \<noteq> [] \<and>
      validate_and_extract_llm_content content =
        Inr (True, Some (strip gi), Some (strip gn), Some (strip gr)))"
proof (cases "re_search pattern (sub_ws (strip content)) 0")
  case None
  then show ?thesis by (simp add: validate_and_extract_llm_content_def)
next
  case (Some m)
  from search_groups [OF Some] obtain gi gn gr where
    g: "group (sub_ws (strip content)) m 1 = Some gi" "group (sub_ws (strip content)) m 2 = Some gn"
       "group (sub_ws (strip content)) m 3 = Some gr"
    by blast
  show ?thesis
  proof (cases "strip gi \<noteq> [] \<and> strip gn \<noteq> [] \<and> strip gr \<noteq> []")
    case True
    with Some g show ?thesis
      by (intro disjI2 exI [of _ m] exI [of _ gi] exI [of _ gn] exI [of _ gr])
         (simp add: validate_and_extract_llm_content_def)
  next
    case False
    with Some g show ?thesis
      by (intro disjI1) (auto simp add: validate_and_extract_llm_content_def)
  qed
qed

lemma validate_no_error: "validate_and_extract_llm_content content \<noteq> Inl e"
  using validate_cases [of content] by auto

section \<open>Occurrences of the labels\<close>

lemma lit_ic_cases:
  "lit_ic c x \<Longrightarrow> to_lower_ascii x = to_lower_ascii c \<or> x = 304 \<or> x = 305 \<or> x = 383 \<or> x = 8490"
  by (auto simp: lit_ic_def Let_def)

lemma is_space_range:
  "is_space x \<Longrightarrow> to_lower_ascii x = x \<and> (x \<le> 32 \<or> 133 \<le> x) \<and>
     x \<noteq> 304 \<and> x \<noteq> 305 \<and> x \<noteq> 383 \<and> x \<noteq> 8490"
  by (auto simp: is_space_def to_lower_ascii_def)

lemma letter_range:
  "c = 58 \<or> (65 \<le> c \<and> c \<le> 90) \<or> (97 \<le> c \<and> c \<le> 122) \<Longrightarrow>
     58 \<le> to_lower_ascii c \<and> to_lower_ascii c \<le> 122"
  by (auto simp: to_lower_ascii_def)

lemma lit_ic_letter_not_space:
  assumes "lit_ic c x" "c = 58 \<or> (65 \<le> c \<and> c \<le> 90) \<or> (97 \<le> c \<and> c \<le> 122)"
  shows "\<not> is_space x"
proof
  assume "is_space x"
  from is_space_range [OF this] lit_ic_cases [OF assms(1)] letter_range [OF assms(2)]
  show False by linarith
qed

lemmas label_chars_not_space =
  lit_ic_letter_not_space [of 73, simplified]
  lit_ic_letter_not_space [of 110, simplified]
  lit_ic_letter_not_space [of 116, simplified]
  lit_ic_letter_not_space [of 101, simplified]
  lit_ic_letter_not_space [of 58, simplified]
  lit_ic_letter_not_space [of 78, simplified]
  lit_ic_letter_not_space [of 111, simplified]
  lit_ic_letter_not_space [of 100, simplified]
  lit_ic_letter_not_space [of 82, simplified]
  lit_ic_letter_not_space [of 97, simplified]
  lit_ic_letter_not_space [of 115, simplified]

lemma nonspace_labels:
  "nonspace_label intent_label" "nonspace_label node_label" "nonspace_label reason_label"
  by (simp_all add: nonspace_label_def intent_label_def node_label_def reason_label_def ustr_def
      label_chars_not_space)

lemma nonspace_label_tl: "nonspace_label (c # d # cs) \<Longrightarrow> nonspace_label (d # cs)"
  by (simp add: nonspace_label_def)

lemma label_at_space:
  "nonspace_label lab \<Longrightarrow> is_space x \<Longrightarrow> \<not> label_at lab (x # xs)"
  by (cases lab) (auto simp: nonspace_label_def)

lemma label_at_sub_ws:
  "\<forall>c\<in>set lab. \<forall>x. lit_ic c x \<longrightarrow> \<not> is_space x \<Longrightarrow> label_at lab (sub_ws z) = label_at lab z"
proof (induction lab arbitrary: z)
  case Nil
  then show ?case by simp
next
  case (Cons c cs)
  show ?case
  proof (cases z)
    case Nil
    then show ?thesis by simp
  next
    case (Cons y ys)
    with Cons.prems Cons.IH [of ys] Cons.IH [of "dropWhile is_space ys"] show ?thesis
      by (cases "is_space y") (auto simp: is_space_def [of 32])
  qed
qed

lemma sub_ws_drop_label:
  "\<forall>c\<in>set lab. \<forall>x. lit_ic c x \<longrightarrow> \<not> is_space x \<Longrightarrow> label_at lab z \<Longrightarrow>
     sub_ws (drop (length lab) z) = drop (length lab) (sub_ws z)"
proof (induction lab arbitrary: z)
  case Nil
  then show ?case by simp
next
  case (Cons c cs)
  then show ?case by (cases z) auto
qed

lemma find_label_drop_spaces:
  "nonspace_label lab \<Longrightarrow> find_label lab (dropWhile is_space z) = find_label lab z"
  by (induction z) (auto simp: label_at_space)

lemma find_label_sub_ws:
  assumes "nonspace_label lab"
  shows "find_label lab (sub_ws x) = map_option sub_ws (find_label lab x)"
proof (induction x rule: sub_ws.induct)
  case 1
  from assms show ?case by (cases lab) (auto simp: nonspace_label_def)
next
  case (2 x xs)
  from assms have ch: "\<forall>c\<in>set lab. \<forall>x. lit_ic c x \<longrightarrow> \<not> is_space x"
    by (simp add: nonspace_label_def)
  show ?case
  proof (cases "is_space x")
    case True
    have sp: "is_space 32" by (simp add: is_space_def)
    from True 2 assms show ?thesis
      by (simp add: label_at_space sp find_label_drop_spaces)
  next
    case False
    have la: "label_at lab (x # sub_ws xs) = label_at lab (x # xs)"
      using label_at_sub_ws [OF ch, of "x # xs"] False by simp
    have dr: "label_at lab (x # xs) \<Longrightarrow>
        drop (length lab) (x # sub_ws xs) = sub_ws (drop (length lab) (x # xs))"
      using sub_ws_drop_label [OF ch, of "x # xs"] False by simp
    from False 2 la dr show ?thesis by simp
  qed
qed

lemma labels_in_order_sub_ws: "labels_in_order (sub_ws x) = labels_in_order x"
proof -
  have n: "find_label lab (sub_ws y) = None \<longleftrightarrow> find_label lab y = None"
    if "nonspace_label lab" for lab y
    using find_label_sub_ws [OF that, of y] by simp
  show ?thesis
    unfolding labels_in_order_def
    by (auto simp: find_label_sub_ws nonspace_labels n split: option.splits)
qed

lemma label_at_append: "label_at lab u \<Longrightarrow> label_at lab (u @ t)"
  by (induction lab u rule: label_at.induct) auto

lemma label_at_iff:
  "label_at lab s \<longleftrightarrow> (\<exists>L r. s = L @ r \<and> list_all2 lit_ic lab L)"
proof (induction lab s rule: label_at.induct)
  case (1 s)
  then show ?case by simp
next
  case (2 c cs)
  then show ?case by simp
next
  case (3 c cs x xs)
  show ?case
  proof
    assume "label_at (c # cs) (x # xs)"
    with 3 obtain L r where "xs = L @ r" "list_all2 lit_ic cs L" "lit_ic c x" by auto
    then have "x # xs = (x # L) @ r \<and> list_all2 lit_ic (c # cs) (x # L)" by simp
    then show "\<exists>L r. x # xs = L @ r \<and> list_all2 lit_ic (c # cs) L" by blast
  next
    assume "\<exists>L r. x # xs = L @ r \<and> list_all2 lit_ic (c # cs) L"
    then obtain L r where *: "x # xs = L @ r" "list_all2 lit_ic (c # cs) L" by blast
    then obtain L' where "L = x # L'" "lit_ic c x" "list_all2 lit_ic cs L'" "xs = L' @ r"
      by (cases L) auto
    with 3 show "label_at (c # cs) (x # xs)" by auto
  qed
qed

lemma label_at_append_iff: "length lab \<le> length u \<Longrightarrow> label_at lab (u @ t) = label_at lab u"
  by (induction lab u rule: label_at.induct) auto

lemma find_label_length: "find_label lab s = Some r \<Longrightarrow> length lab \<le> length s"
proof (induction s)
  case Nil
  then show ?case by (cases lab) (auto split: if_splits)
next
  case (Cons x xs)
  then show ?case
    using label_at_length [of lab "x # xs"] by (auto split: if_splits)
qed

lemma find_label_append:
  "find_label lab u = Some r \<Longrightarrow> find_label lab (u @ t) = Some (r @ t)"
proof (induction u)
  case Nil
  then show ?case by (cases lab; cases t) (auto split: if_splits)
next
  case (Cons x xs)
  from find_label_length [OF Cons.prems] have len: "length lab \<le> length (x # xs)" .
  then have la: "label_at lab (x # xs @ t) = label_at lab (x # xs)"
    using label_at_append_iff [of lab "x # xs" t] by simp
  show ?case
  proof (cases "label_at lab (x # xs)")
    case True
    with Cons.prems have "r = drop (length lab) (x # xs)" by simp
    moreover have "drop (length lab) ((x # xs) @ t) = drop (length lab) (x # xs) @ t"
      using len by (simp only: drop_append diff_is_0_eq' drop_0)
    ultimately show ?thesis using True la by simp
  next
    case False
    with Cons.prems have "find_label lab xs = Some r" by simp
    from Cons.IH [OF this] False la show ?thesis by simp
  qed
qed

lemma find_label_suffix: "find_label lab s = Some r \<Longrightarrow> \<exists>a. s = a @ r"
proof (induction s)
  case Nil
  then show ?case by (simp split: if_splits)
next
  case (Cons x xs)
  show ?case
  proof (cases "label_at lab (x # xs)")
    case True
    with Cons.prems have "r = drop (length lab) (x # xs)" by simp
    then have "x # xs = take (length lab) (x # xs) @ r" by simp
    then show ?thesis by blast
  next
    case False
    with Cons obtain a where "xs = a @ r" by auto
    then have "x # xs = (x # a) @ r" by simp
    then show ?thesis by blast
  qed
qed

lemma find_label_prefix_none:
  "find_label lab (a @ s) = None \<Longrightarrow> find_label lab s = None"
proof (induction a)
  case Nil
  then show ?case by simp
next
  case (Cons x xs)
  then show ?case by (simp split: if_splits)
qed

lemma find_label_at:
  "lab \<noteq> [] \<Longrightarrow> label_at lab (drop p s) \<Longrightarrow>
     \<exists>q. find_label lab s = Some (drop q s) \<and> length lab \<le> q \<and> q \<le> p + length lab"
proof (induction s arbitrary: p)
  case Nil
  then show ?case by (cases lab) auto
next
  case (Cons x xs)
  show ?case
  proof (cases "label_at lab (x # xs)")
    case True
    then show ?thesis by (intro exI [of _ "length lab"]) simp
  next
    case False
    with Cons.prems obtain p' where p: "p = Suc p'" by (cases p) auto
    with Cons.prems have "label_at lab (drop p' xs)" by simp
    from Cons.IH [OF Cons.prems(1) this] obtain q where
      "find_label lab xs = Some (drop q xs)" "length lab \<le> q" "q \<le> p' + length lab" by blast
    with False p show ?thesis by (intro exI [of _ "Suc q"]) simp
  qed
qed

lemma rstrip_append: "rstrip x @ rev (takeWhile is_space (rev x)) = x"
proof -
  have "rstrip x @ rev (takeWhile is_space (rev x)) =
      rev (takeWhile is_space (rev x) @ dropWhile is_space (rev x))"
    by (simp only: rstrip_def rev_append)
  then show ?thesis by simp
qed

lemma labels_in_order_append:
  assumes "labels_in_order u"
  shows "labels_in_order (u @ t)"
proof -
  from assms obtain r1 r2 r3 where
    "find_label intent_label u = Some r1" "find_label node_label r1 = Some r2"
    "find_label reason_label r2 = Some r3"
    by (auto simp: labels_in_order_def split: option.splits)
  then have "find_label intent_label (u @ t) = Some (r1 @ t)"
    "find_label node_label (r1 @ t) = Some (r2 @ t)"
    "find_label reason_label (r2 @ t) = Some (r3 @ t)"
    by (simp_all add: find_label_append)
  then show ?thesis by (simp add: labels_in_order_def)
qed

lemma labels_in_order_strip:
  assumes "labels_in_order (strip x)"
  shows "labels_in_order x"
proof -
  from labels_in_order_append [OF assms, of "rev (takeWhile is_space (rev (lstrip x)))"]
  have "labels_in_order (lstrip x)"
    by (simp add: strip_def rstrip_append)
  then show ?thesis
    by (simp add: labels_in_order_def lstrip_def find_label_drop_spaces nonspace_labels)
qed

lemma labels_in_order_cleaned:
  "labels_in_order (sub_ws (strip x)) \<Longrightarrow> labels_in_order x"
  by (simp add: labels_in_order_sub_ws labels_in_order_strip)

lemma label_nonempty:
  "intent_label \<noteq> []" "node_label \<noteq> []" "reason_label \<noteq> []"
  using nonspace_labels by (simp_all add: nonspace_label_def)

lemma search_labels_in_order:
  assumes "re_search pattern w 0 = Some r"
  shows "labels_in_order w"
proof -
  from search_shape [OF assms] obtain j b1 e1 l2 b2 e2 l3 b3 where
    i: "label_at intent_label (drop j w)" and n: "label_at node_label (drop l2 w)"
    and r: "label_at reason_label (drop l3 w)"
    and o: "j + 7 \<le> b1" "b1 < e1" "e1 \<le> l2" "l2 + 5 \<le> b2" "b2 < e2" "e2 \<le> l3"
    by blast
  from find_label_at [OF label_nonempty(1) i] obtain q1 where
    f1: "find_label intent_label w = Some (drop q1 w)" and q1: "q1 \<le> j + 7"
    by (auto simp: label_lengths)
  from q1 o have "drop l2 w = drop (l2 - q1) (drop q1 w)" by simp
  with n have "label_at node_label (drop (l2 - q1) (drop q1 w))" by simp
  from find_label_at [OF label_nonempty(2) this] obtain q2 where
    f2: "find_label node_label (drop q1 w) = Some (drop q2 (drop q1 w))"
    and q2: "q2 \<le> l2 - q1 + 5"
    by (auto simp: label_lengths)
  from q1 q2 o have "drop l3 w = drop (l3 - (q1 + q2)) (drop q2 (drop q1 w))" by simp
  with r have "label_at reason_label (drop (l3 - (q1 + q2)) (drop q2 (drop q1 w)))" by simp
  from find_label_at [OF label_nonempty(3) this] obtain q3 where
    f3: "find_label reason_label (drop q2 (drop q1 w)) = Some (drop q3 (drop q2 (drop q1 w)))"
    by blast
  from f1 f2 f3 show ?thesis by (simp add: labels_in_order_def)
qed

lemma valid_labels_in_order:
  assumes "validate_and_extract_llm_content content \<noteq> Inr (False, None, None, None)"
  shows "labels_in_order content"
proof -
  from assms validate_cases [of content] obtain m where
    "re_search pattern (sub_ws (strip content)) 0 = Some m" by blast
  from search_labels_in_order [OF this] show ?thesis by (rule labels_in_order_cleaned)
qed

lemma missing_label_not_in_order:
  assumes "find_label intent_label s = None \<or> find_label node_label s = None \<or>
           find_label reason_label s = None"
  shows "\<not> labels_in_order s"
proof
  assume "labels_in_order s"
  then obtain r1 r2 r3 where f: "find_label intent_label s = Some r1"
    "find_label node_label r1 = Some r2" "find_label reason_label r2 = Some r3"
    by (auto simp: labels_in_order_def split: option.splits)
  from find_label_suffix [OF f(1)] obtain a where a: "s = a @ r1" by blast
  from find_label_suffix [OF f(2)] obtain b where b: "r1 = b @ r2" by blast
  from f(2) a have "find_label node_label s \<noteq> None"
    using find_label_prefix_none [of node_label a r1] by auto
  moreover from f(3) a b have "find_label reason_label s \<noteq> None"
    using find_label_prefix_none [of reason_label "a @ b" r2] by auto
  ultimately show False using assms f(1) by auto
qed

lemma find_label_decomp:
  "find_label lab s = Some r \<Longrightarrow> \<exists>a L. s = a @ L @ r \<and> list_all2 lit_ic lab L"
proof (induction s)
  case Nil
  then show ?case by (cases lab) (auto split: if_splits)
next
  case (Cons x xs)
  show ?case
  proof (cases "label_at lab (x # xs)")
    case True
    then obtain L r' where L: "x # xs = L @ r'" "list_all2 lit_ic lab L"
      unfolding label_at_iff by blast
    then have "length L = length lab" by (simp add: list_all2_lengthD)
    with L have "drop (length lab) (x # xs) = r'" by (metis append_eq_conv_conj)
    with True Cons.prems have "r = r'" by simp
    with L have "x # xs = [] @ L @ r \<and> list_all2 lit_ic lab L" by simp
    then show ?thesis by blast
  next
    case False
    with Cons obtain a L where "xs = a @ L @ r" "list_all2 lit_ic lab L" by auto
    then have "x # xs = (x # a) @ L @ r \<and> list_all2 lit_ic lab L" by simp
    then show ?thesis by blast
  qed
qed

lemma find_label_occurrence:
  assumes "lab \<noteq> []" "list_all2 lit_ic lab L"
  shows "\<exists>u. find_label lab (a @ L @ rest) = Some (u @ rest)"
proof -
  have len: "length L = length lab" using assms(2) by (simp add: list_all2_lengthD)
  have "label_at lab (drop (length a) (a @ L @ rest))"
    using assms(2) unfolding label_at_iff by auto
  from find_label_at [OF assms(1) this] obtain q where
    f: "find_label lab (a @ L @ rest) = Some (drop q (a @ L @ rest))" and q: "q \<le> length a + length lab"
    by blast
  from q len have "drop q ((a @ L) @ rest) = drop q (a @ L) @ rest"
    by (simp only: drop_append length_append diff_is_0_eq' drop_0)
  with f show ?thesis by auto
qed

lemma labels_in_order_iff:
  "labels_in_order s \<longleftrightarrow>
     (\<exists>a L1 b L2 c L3 d. s = a @ L1 @ b @ L2 @ c @ L3 @ d \<and> list_all2 lit_ic intent_label L1 \<and>
        list_all2 lit_ic node_label L2 \<and> list_all2 lit_ic reason_label L3)"
proof
  assume "labels_in_order s"
  then obtain r1 r2 r3 where f: "find_label intent_label s = Some r1"
    "find_label node_label r1 = Some r2" "find_label reason_label r2 = Some r3"
    by (auto simp: labels_in_order_def split: option.splits)
  from find_label_decomp [OF f(1)] obtain a L1 where 1: "s = a @ L1 @ r1" "list_all2 lit_ic intent_label L1"
    by blast
  from find_label_decomp [OF f(2)] obtain b L2 where 2: "r1 = b @ L2 @ r2" "list_all2 lit_ic node_label L2"
    by blast
  from find_label_decomp [OF f(3)] obtain c L3 where 3: "r2 = c @ L3 @ r3" "list_all2 lit_ic reason_label L3"
    by blast
  from 1 2 3 have "s = a @ L1 @ b @ L2 @ c @ L3 @ r3" by simp
  with 1 2 3 show "\<exists>a L1 b L2 c L3 d. s = a @ L1 @ b @ L2 @ c @ L3 @ d \<and>
        list_all2 lit_ic intent_label L1 \<and> list_all2 lit_ic node_label L2 \<and>
        list_all2 lit_ic reason_label L3"
    by blast
next
  assume "\<exists>a L1 b L2 c L3 d. s = a @ L1 @ b @ L2 @ c @ L3 @ d \<and>
        list_all2 lit_ic intent_label L1 \<and> list_all2 lit_ic node_label L2 \<and>
        list_all2 lit_ic reason_label L3"
  then obtain a L1 b L2 c L3 d where s: "s = a @ L1 @ b @ L2 @ c @ L3 @ d"
    and L: "list_all2 lit_ic intent_label L1" "list_all2 lit_ic node_label L2"
      "list_all2 lit_ic reason_label L3"
    by blast
  from find_label_occurrence [OF label_nonempty(1) L(1), of a "b @ L2 @ c @ L3 @ d"]
  obtain u1 where 1: "find_label intent_label s = Some (u1 @ b @ L2 @ c @ L3 @ d)"
    using s by auto
  from find_label_occurrence [OF label_nonempty(2) L(2), of "u1 @ b" "c @ L3 @ d"]
  obtain u2 where 2: "find_label node_label (u1 @ b @ L2 @ c @ L3 @ d) = Some (u2 @ c @ L3 @ d)"
    by auto
  from find_label_occurrence [OF label_nonempty(3) L(3), of "u2 @ c" d]
  obtain u3 where 3: "find_label reason_label (u2 @ c @ L3 @ d) = Some (u3 @ d)"
    by auto
  from 1 2 3 show "labels_in_order s" by (simp add: labels_in_order_def)
qed

lemma find_label_some_at:
  "find_label lab s = Some r \<Longrightarrow> \<exists>p. label_at lab (drop p s)"
proof (induction s)
  case Nil
  then show ?case by (auto split: if_splits)
next
  case (Cons x xs)
  show ?case
  proof (cases "label_at lab (x # xs)")
    case True
    then have "label_at lab (drop 0 (x # xs))" by simp
    then show ?thesis by blast
  next
    case False
    with Cons obtain p where "label_at lab (drop p xs)" by auto
    then have "label_at lab (drop (Suc p) (x # xs))" by simp
    then show ?thesis by blast
  qed
qed

lemma find_label_none_iff:
  "lab \<noteq> [] \<Longrightarrow> find_label lab s = None \<longleftrightarrow> (\<forall>p. \<not> label_at lab (drop p s))"
  using find_label_some_at [of lab s] find_label_at [of lab _ s] by (cases "find_label lab s") auto

section \<open>Normalised text and its parts\<close>

lemma no_ws_run_Cons:
  "no_ws_run (x # ys) \<longleftrightarrow> (ys \<noteq> [] \<longrightarrow> \<not> (is_space x \<and> is_space (hd ys))) \<and> no_ws_run ys"
  by (cases ys) auto

lemma hd_sub_ws: "xs \<noteq> [] \<Longrightarrow> \<not> is_space (hd xs) \<Longrightarrow> hd (sub_ws xs) = hd xs"
  by (cases xs) auto

lemma sub_ws_Nil_iff: "sub_ws xs = [] \<longleftrightarrow> xs = []"
  by (cases xs) auto

lemma single_spaced_sub_ws: "single_spaced (sub_ws x)"
proof (induction x rule: sub_ws.induct)
  case 1
  then show ?case by (simp add: single_spaced_def)
next
  case (2 x xs)
  show ?case
  proof (cases "is_space x")
    case True
    have "dropWhile is_space xs \<noteq> [] \<Longrightarrow> \<not> is_space (hd (dropWhile is_space xs))"
      using hd_dropWhile [of is_space xs] by simp
    then have "sub_ws (dropWhile is_space xs) \<noteq> [] \<Longrightarrow>
        \<not> is_space (hd (sub_ws (dropWhile is_space xs)))"
      by (simp add: hd_sub_ws sub_ws_Nil_iff)
    with True 2 show ?thesis
      by (auto simp: single_spaced_def no_ws_run_Cons)
  next
    case False
    with 2 show ?thesis
      by (auto simp: single_spaced_def no_ws_run_Cons)
  qed
qed

lemma no_ws_run_append: "no_ws_run (a @ b) \<Longrightarrow> no_ws_run a \<and> no_ws_run b"
proof (induction a)
  case Nil
  then show ?case by simp
next
  case (Cons x xs)
  then show ?case by (cases xs) (auto simp: no_ws_run_Cons)
qed

lemma single_spaced_infix: "single_spaced (a @ f @ b) \<Longrightarrow> single_spaced f"
  using no_ws_run_append [of a "f @ b"] no_ws_run_append [of f b]
  by (auto simp: single_spaced_def)

lemma strip_infix: "\<exists>a b. g = a @ strip g @ b"
proof -
  have "g = takeWhile is_space g @ lstrip g" by (simp add: lstrip_def)
  also have "lstrip g = strip g @ rev (takeWhile is_space (rev (lstrip g)))"
    by (simp add: strip_def rstrip_append)
  finally show ?thesis by blast
qed

lemma slice_infix: "\<exists>a b. w = a @ slice w i j @ b"
proof -
  have "w = take i w @ drop i w" by simp
  also have "drop i w = take (j - i) (drop i w) @ drop (j - i) (drop i w)"
    by (simp only: append_take_drop_id)
  finally have "w = take i w @ take (j - i) (drop i w) @ drop (j - i) (drop i w)" .
  then show ?thesis unfolding slice_def by blast
qed

lemma strip_slice_infix: "\<exists>a b. w = a @ strip (slice w i j) @ b"
proof -
  obtain a b where 1: "w = a @ slice w i j @ b" using slice_infix by blast
  obtain c d where 2: "slice w i j = c @ strip (slice w i j) @ d" using strip_infix by blast
  from 1 2 have "w = (a @ c) @ strip (slice w i j) @ (d @ b)" by (metis append.assoc)
  then show ?thesis by blast
qed

lemma rstrip_ends: "rstrip y \<noteq> [] \<Longrightarrow> \<not> is_space (last (rstrip y)) \<and> hd (rstrip y) = hd y"
proof -
  assume ne: "rstrip y \<noteq> []"
  then have d: "dropWhile is_space (rev y) \<noteq> []" by (simp add: rstrip_def)
  then have "\<not> is_space (hd (dropWhile is_space (rev y)))" by (rule hd_dropWhile)
  with d have l: "\<not> is_space (last (rstrip y))" by (simp add: rstrip_def last_rev)
  from ne rstrip_append [of y] have "hd (rstrip y) = hd y" by (metis hd_append2)
  with l show ?thesis by simp
qed

lemma strip_ends: "strip g \<noteq> [] \<Longrightarrow> \<not> is_space (hd (strip g)) \<and> \<not> is_space (last (strip g))"
proof -
  assume ne: "strip g \<noteq> []"
  then have r: "rstrip (lstrip g) \<noteq> []" by (simp add: strip_def)
  then have l: "lstrip g \<noteq> []" by (auto simp: rstrip_def)
  then have "\<not> is_space (hd (lstrip g))" unfolding lstrip_def by (rule hd_dropWhile)
  with rstrip_ends [OF r] show ?thesis by (simp add: strip_def)
qed

lemma tidy_field:
  assumes "\<exists>a b. sub_ws x = a @ f @ b" "f = strip g" "f \<noteq> []"
  shows "tidy f"
proof -
  from assms(1) obtain a b where "sub_ws x = a @ f @ b" by blast
  with single_spaced_sub_ws [of x] have s: "single_spaced f"
    using single_spaced_infix by metis
  have "is_space 10" by (simp add: is_space_def)
  with s have "10 \<notin> set f" by (auto simp: single_spaced_def list_all_iff)
  with s assms(2,3) strip_ends [of g] show ?thesis
    by (simp add: tidy_def single_spaced_def)
qed

section \<open>Splitting a ground truth at its commas\<close>

lemma split_comma_not_Nil: "split_comma s \<noteq> []"
  by (induction s) (auto split: list.splits)

lemma split_comma_append:
  "44 \<notin> set x \<Longrightarrow>
     split_comma (x @ r) = (x @ hd (split_comma r)) # tl (split_comma r)"
proof (induction x)
  case Nil
  then show ?case using split_comma_not_Nil [of r] by simp
next
  case (Cons c cs)
  then show ?case by simp
qed

lemma split_comma_join:
  assumes "44 \<notin> set ws" "xs \<noteq> []" "\<forall>x\<in>set xs. 44 \<notin> set x"
  shows "split_comma (join (44 # ws) xs) = hd xs # map ((@) ws) (tl xs)"
  using assms(2,3)
proof (induction "44 # ws" xs rule: join.induct)
  case 1
  then show ?case by simp
next
  case (2 x)
  then show ?case using split_comma_append [of x "[]"] by simp
next
  case (3 x y ys)
  then have ih: "split_comma (join (44 # ws) (y # ys)) = y # map ((@) ws) ys" by simp
  from 3 have x: "44 \<notin> set x" by simp
  have "split_comma (join (44 # ws) (x # y # ys)) =
      split_comma (x @ 44 # (ws @ join (44 # ws) (y # ys)))" by simp
  also have "\<dots> = x # split_comma (ws @ join (44 # ws) (y # ys))"
    by (simp add: split_comma_append [OF x])
  also have "split_comma (ws @ join (44 # ws) (y # ys)) = (ws @ y) # map ((@) ws) ys"
    by (simp add: split_comma_append [OF assms(1)] ih)
  finally show ?case by simp
qed

lemma strip_leading_space: "all_space ws \<Longrightarrow> strip (ws @ x) = strip x"
  by (simp add: strip_def lstrip_def all_space_def list_all_iff dropWhile_append3 dropWhile_append)

lemma candidates_join:
  assumes "all_space ws" "xs \<noteq> []" "\<forall>x\<in>set xs. 44 \<notin> set x"
  shows "map (\<lambda>c. lower (strip c)) (split_comma (join (44 # ws) xs)) = map (\<lambda>c. lower (strip c)) xs"
proof -
  have "\<not> is_space 44" by (simp add: is_space_def)
  with assms(1) have "44 \<notin> set ws" by (auto simp: all_space_def list_all_iff)
  from split_comma_join [OF this assms(2,3)] assms(1,2) show ?thesis
    by (cases xs) (simp_all add: strip_leading_space)
qed

lemma compute_score_true_nodes:
  assumes "true_nodes lower gt = true_nodes lower gt'"
  shows "compute_score lower solution_str gt std_format std_acc =
       compute_score lower solution_str gt' std_format std_acc"
  unfolding compute_score_def assms ..

section \<open>Changing the letter-case of the input\<close>

lemma case_var_upper: "case_var x y \<Longrightarrow> x \<noteq> y \<Longrightarrow> 65 \<le> x \<and> x \<le> 122 \<and> 65 \<le> y \<and> y \<le> 122"
  by (auto simp: case_var_def to_lower_ascii_def split: if_splits)

lemma case_var_space: "case_var x y \<Longrightarrow> is_space x = is_space y"
  using case_var_upper [of x y] by (cases "x = y") (auto simp: is_space_def)

lemma case_var_lit: "case_var x y \<Longrightarrow> lit_ic c x = lit_ic c y"
  using case_var_upper [of x y] by (cases "x = y") (auto simp: lit_ic_def case_var_def Let_def)

lemma case_var_newline: "case_var x y \<Longrightarrow> (x = 10) = (y = 10)"
  using case_var_upper [of x y] by (cases "x = y") auto

lemma match_here_recased:
  "list_all2 case_var s s' \<Longrightarrow> match_here p s' i ms = match_here p s i ms"
proof (induction p s i ms arbitrary: s' rule: match_here.induct)
  case (3 c p x xs i ms)
  then obtain y ys where "s' = y # ys" "case_var x y" "list_all2 case_var xs ys"
    by (auto simp: list_all2_Cons1)
  with 3 show ?case by (simp add: case_var_lit [of x y])
next
  case (5 p x xs i ms)
  then obtain y ys where s': "s' = y # ys" "case_var x y" "list_all2 case_var xs ys"
    by (auto simp: list_all2_Cons1)
  then have all: "list_all2 case_var (x # xs) (y # ys)" by simp
  show ?case
  proof (cases "is_space x")
    case True
    with s' have y: "is_space y" using case_var_space [of x y] by simp
    have a: "match_here (SpaceStar # p) ys (Suc i) ms = match_here (SpaceStar # p) xs (Suc i) ms"
      using 5(1) [OF True s'(3)] .
    have b: "match_here p (y # ys) i ms = match_here p (x # xs) i ms"
      if "match_here (SpaceStar # p) xs (Suc i) ms = None"
      using 5(2) [OF True that all] .
    from True y a b show ?thesis unfolding s' by (simp split: option.splits)
  next
    case False
    with s' have y: "\<not> is_space y" using case_var_space [of x y] by simp
    from False y 5(3) [OF False all] show ?thesis unfolding s' by simp
  qed
next
  case (8 p x xs i ms)
  then obtain y ys where s': "s' = y # ys" "case_var x y" "list_all2 case_var xs ys"
    by (auto simp: list_all2_Cons1)
  with 8 show ?case by (simp split: option.splits)
next
  case (10 p x xs i ms)
  then obtain y ys where s': "s' = y # ys" "case_var x y" "list_all2 case_var xs ys"
    by (auto simp: list_all2_Cons1)
  with 10 show ?case by (simp split: option.splits)
next
  case (11 p s i ms)
  from 11(2) have "(s' = []) = (s = [])" by (auto simp: list_all2_Nil2)
  moreover from 11(2) have "(s' = [10]) = (s = [10])"
    using case_var_newline by (cases s; cases s') (auto simp: list_all2_Nil2 list_all2_Nil)
  ultimately show ?case using 11 by simp
qed simp_all

lemma re_search_recased:
  "list_all2 case_var s s' \<Longrightarrow> re_search p s' i = re_search p s i"
proof (induction s arbitrary: s' i)
  case Nil
  then show ?case by simp
next
  case (Cons x xs)
  then obtain y ys where s': "s' = y # ys" "list_all2 case_var xs ys"
    by (auto simp: list_all2_Cons1)
  from Cons.prems s' have "match_here p (y # ys) i [] = match_here p (x # xs) i []"
    by (intro match_here_recased) simp
  with Cons.IH [OF s'(2)] s' show ?case by (simp split: option.splits)
qed

lemma dropWhile_recased:
  "list_all2 case_var s s' \<Longrightarrow> list_all2 case_var (dropWhile is_space s) (dropWhile is_space s')"
  by (induction rule: list_all2_induct) (auto simp: case_var_space)

lemma strip_recased:
  assumes "list_all2 case_var s s'"
  shows "list_all2 case_var (strip s) (strip s')"
proof -
  from assms have "list_all2 case_var (lstrip s) (lstrip s')"
    unfolding lstrip_def by (rule dropWhile_recased)
  then have "list_all2 case_var (rev (lstrip s)) (rev (lstrip s'))"
    by simp
  then have "list_all2 case_var (dropWhile is_space (rev (lstrip s))) (dropWhile is_space (rev (lstrip s')))"
    by (rule dropWhile_recased)
  then show ?thesis unfolding strip_def rstrip_def by simp
qed

lemma sub_ws_recased:
  "list_all2 case_var s s' \<Longrightarrow> list_all2 case_var (sub_ws s) (sub_ws s')"
proof (induction s arbitrary: s' rule: sub_ws.induct)
  case 1
  then show ?case by simp
next
  case (2 x xs)
  then obtain y ys where s': "s' = y # ys" "case_var x y" "list_all2 case_var xs ys"
    by (auto simp: list_all2_Cons1)
  show ?case
  proof (cases "is_space x")
    case True
    with s' have y: "is_space y" by (simp add: case_var_space [of x y])
    from s' have "list_all2 case_var (dropWhile is_space xs) (dropWhile is_space ys)"
      by (intro dropWhile_recased)
    moreover have "case_var 32 32" by (simp add: case_var_def)
    ultimately show ?thesis using 2(1) [OF True] True y s' by simp
  next
    case False
    with s' have y: "\<not> is_space y" by (simp add: case_var_space [of x y])
    with 2(2) [OF False s'(3)] False s' show ?thesis by simp
  qed
qed

lemma cleaned_recased:
  "list_all2 case_var s s' \<Longrightarrow> list_all2 case_var (sub_ws (strip s)) (sub_ws (strip s'))"
  by (intro sub_ws_recased strip_recased)

lemma slice_recased:
  "list_all2 case_var w w' \<Longrightarrow> list_all2 case_var (slice w b e) (slice w' b e)"
  unfolding slice_def by (intro list_all2_takeI list_all2_dropI)

lemma group_recased:
  assumes "list_all2 case_var w w'" "group w m k = Some g"
  shows "\<exists>g'. group w' m k = Some g' \<and> list_all2 case_var (strip g) (strip g')"
proof -
  from assms(2) obtain b e where g: "g = slice w b e" "group w' m k = Some (slice w' b e)"
    by (auto simp: group_def Let_def split: if_splits)
  with slice_recased [OF assms(1), of b e] show ?thesis
    by (auto intro: strip_recased)
qed

lemma validate_no_match:
  "re_search pattern (sub_ws (strip s)) 0 = None \<Longrightarrow>
     validate_and_extract_llm_content s = Inr (False, None, None, None)"
  by (simp add: validate_and_extract_llm_content_def)

lemma validate_match:
  assumes "re_search pattern (sub_ws (strip s)) 0 = Some m"
    and "group (sub_ws (strip s)) m 1 = Some gi" "group (sub_ws (strip s)) m 2 = Some gn"
    and "group (sub_ws (strip s)) m 3 = Some gr"
  shows "validate_and_extract_llm_content s =
           (if strip gi \<noteq> [] \<and> strip gn \<noteq> [] \<and> strip gr \<noteq> []
            then Inr (True, Some (strip gi), Some (strip gn), Some (strip gr))
            else Inr (False, None, None, None))"
  using assms by (simp add: validate_and_extract_llm_content_def)

section \<open>Text before the first label and after the last\<close>

lemma last_sub_ws: "y \<noteq> [] \<Longrightarrow> \<not> is_space (last y) \<Longrightarrow> sub_ws y \<noteq> [] \<and> last (sub_ws y) = last y"
proof (induction y rule: sub_ws.induct)
  case 1
  then show ?case by simp
next
  case (2 x xs)
  show ?case
  proof (cases "is_space x")
    case True
    with 2(4) have ne: "xs \<noteq> []" by auto
    have d: "dropWhile is_space xs \<noteq> []"
    proof
      assume "dropWhile is_space xs = []"
      then have "\<forall>c\<in>set xs. is_space c" by (simp add: dropWhile_eq_Nil_conv)
      with ne have "is_space (last xs)" by simp
      with 2(4) ne show False by simp
    qed
    have "xs = takeWhile is_space xs @ dropWhile is_space xs" by simp
    with d have l: "last xs = last (dropWhile is_space xs)" by (metis last_appendR)
    with 2(4) ne have "\<not> is_space (last (dropWhile is_space xs))" by simp
    from 2(1) [OF True d this] True l ne show ?thesis by simp
  next
    case False
    show ?thesis
    proof (cases "xs = []")
      case True
      with False show ?thesis by simp
    next
      case ne: False
      with 2(4) have "\<not> is_space (last xs)" by simp
      from 2(2) [OF False ne this] False ne show ?thesis by simp
    qed
  qed
qed

lemma cleaned_last: "sub_ws (strip x) \<noteq> [] \<Longrightarrow> \<not> is_space (last (sub_ws (strip x)))"
proof -
  assume "sub_ws (strip x) \<noteq> []"
  then have ne: "strip x \<noteq> []" by (auto simp: sub_ws_Nil_iff)
  with strip_ends [OF ne] last_sub_ws [of "strip x"] show ?thesis by simp
qed

lemma rstrip_id: "y \<noteq> [] \<Longrightarrow> \<not> is_space (last y) \<Longrightarrow> rstrip y = y"
  by (cases "rev y") (auto simp: rstrip_def last_rev [symmetric] simp del: last_rev)

lemma reason_to_end:
  assumes "validate_and_extract_llm_content content = Inr (True, Some intent, Some node, Some reason)"
  shows "\<exists>u L sp. sub_ws (strip content) = u @ L @ sp @ reason \<and>
           list_all2 lit_ic reason_label L \<and> all_space sp"
proof -
  let ?w = "sub_ws (strip content)"
  from assms validate_cases [of content] obtain m gr where
    m: "re_search pattern ?w 0 = Some m" and g: "group ?w m 3 = Some gr"
    and r: "reason = strip gr" "strip gr \<noteq> []"
    by auto
  from search_shape [OF m] obtain l3 b3 e2 b2 e1 b1 where
    sh: "label_at reason_label (drop l3 ?w)" "l3 + 7 \<le> b3" "all_space (slice ?w (l3 + 7) b3)"
      "b3 < length ?w" "m = [length ?w, b3, e2, b2, e1, b1]"
    by blast
  from g sh(5) have gr: "gr = drop b3 ?w" by (simp add: group_def slice_def)
  from sh(1) obtain L rest where L: "drop l3 ?w = L @ rest" "list_all2 lit_ic reason_label L"
    unfolding label_at_iff by blast
  then have lenL: "length L = 7" by (auto dest: list_all2_lengthD simp: label_lengths)
  with L have rest: "rest = drop (l3 + 7) ?w"
    by (metis add.commute append_eq_conv_conj drop_drop)
  have "drop (l3 + 7) ?w = take (b3 - (l3 + 7)) (drop (l3 + 7) ?w) @ drop (b3 - (l3 + 7)) (drop (l3 + 7) ?w)"
    by (simp only: append_take_drop_id)
  with sh(2) have split: "drop (l3 + 7) ?w = slice ?w (l3 + 7) b3 @ drop b3 ?w"
    by (simp add: slice_def)
  have ne: "lstrip gr \<noteq> []" using r(2) by (auto simp: strip_def rstrip_def)
  have tw: "gr = takeWhile is_space gr @ lstrip gr" by (simp add: lstrip_def)
  from sh(4) have wne: "?w \<noteq> []" by auto
  have "?w = take b3 ?w @ gr" by (simp add: gr)
  with tw have "?w = (take b3 ?w @ takeWhile is_space gr) @ lstrip gr" by simp
  with ne have "last (lstrip gr) = last ?w" by (metis last_appendR)
  with cleaned_last [OF wne] have "\<not> is_space (last (lstrip gr))" by simp
  with ne r(1) have reason: "reason = lstrip gr" by (simp add: strip_def rstrip_id)
  have "?w = take l3 ?w @ drop l3 ?w" by simp
  also have "drop l3 ?w = L @ slice ?w (l3 + 7) b3 @ gr"
    using L(1) rest split gr by simp
  also have "gr = takeWhile is_space gr @ reason" using tw reason by simp
  finally have "?w = take l3 ?w @ L @ (slice ?w (l3 + 7) b3 @ takeWhile is_space gr) @ reason"
    by simp
  moreover have "all_space (slice ?w (l3 + 7) b3 @ takeWhile is_space gr)"
    using sh(3) by (auto simp: all_space_def list_all_iff dest: set_takeWhileD)
  ultimately show ?thesis using L(2) by blast
qed

lemma first_label_Some:
  "first_label lab s = Some p \<Longrightarrow> label_at lab (drop p s) \<and> (\<forall>j<p. \<not> label_at lab (drop j s))"
proof (induction s arbitrary: p)
  case Nil
  then show ?case by (auto split: if_splits)
next
  case (Cons x xs)
  show ?case
  proof (cases "label_at lab (x # xs)")
    case True
    with Cons.prems show ?thesis by simp
  next
    case False
    with Cons.prems obtain q where q: "first_label lab xs = Some q" "p = Suc q" by auto
    from Cons.IH [OF q(1)] have ih: "label_at lab (drop q xs)" "\<forall>j<q. \<not> label_at lab (drop j xs)"
      by auto
    have "\<not> label_at lab (drop j (x # xs))" if "j < p" for j
      using that q(2) False ih(2) by (cases j) auto
    with ih(1) q(2) show ?thesis by simp
  qed
qed

lemma find_label_first:
  "find_label lab s = map_option (\<lambda>p. drop (p + length lab) s) (first_label lab s)"
proof (induction s)
  case Nil
  then show ?case by simp
next
  case (Cons x xs)
  then show ?case by (cases "first_label lab xs") auto
qed

lemma first_label_bound:
  "first_label lab s = Some p \<Longrightarrow> p + length lab \<le> length s"
proof (induction s arbitrary: p)
  case Nil
  then show ?case by (cases lab) (auto split: if_splits)
next
  case (Cons x xs)
  then show ?case
    using label_at_length [of lab "x # xs"] by (auto split: if_splits)
qed

lemma label_at_spaces_tail:
  "\<forall>c\<in>set lab. \<forall>x. lit_ic c x \<longrightarrow> \<not> is_space x \<Longrightarrow> all_space t \<Longrightarrow>
     label_at lab (u @ t) = label_at lab u"
proof (induction lab u rule: label_at.induct)
  case (1 s)
  then show ?case by simp
next
  case (2 c cs)
  then show ?case by (cases t) (auto simp: all_space_def)
next
  case (3 c cs x xs)
  then show ?case by simp
qed

lemma find_label_spaces_tail:
  assumes "nonspace_label lab" "all_space t"
  shows "find_label lab (u @ t) = map_option (\<lambda>r. r @ t) (find_label lab u)"
proof (induction u)
  case Nil
  from assms(1) have nl: "\<not> label_at lab []" by (cases lab) (auto simp: nonspace_label_def)
  from assms(2) have "find_label lab t = None"
    by (induction t) (auto simp: all_space_def nl label_at_space [OF assms(1)])
  with nl show ?case by simp
next
  case (Cons x xs)
  from assms have ch: "\<forall>c\<in>set lab. \<forall>x. lit_ic c x \<longrightarrow> \<not> is_space x"
    by (simp add: nonspace_label_def)
  have la: "label_at lab (x # xs @ t) = label_at lab (x # xs)"
    using label_at_spaces_tail [OF ch assms(2), of "x # xs"] by simp
  show ?case
  proof (cases "label_at lab (x # xs)")
    case True
    from label_at_length [OF True] have "drop (length lab) ((x # xs) @ t) = drop (length lab) (x # xs) @ t"
      by (simp only: drop_append diff_is_0_eq' drop_0)
    with True la show ?thesis by simp
  next
    case False
    with la Cons show ?thesis by simp
  qed
qed

lemma label_at_head: "nonspace_label lab \<Longrightarrow> label_at lab w \<Longrightarrow> w \<noteq> [] \<and> \<not> is_space (hd w)"
  by (cases lab; cases w) (auto simp: nonspace_label_def)

lemma lstrip_append: "w \<noteq> [] \<Longrightarrow> \<not> is_space (hd w) \<Longrightarrow> lstrip (a @ w) = lstrip a @ w"
  by (cases w) (auto simp: lstrip_def dropWhile_append dropWhile_eq_Nil_conv)

lemma rstrip_prefix: "w \<noteq> [] \<Longrightarrow> \<not> is_space (hd w) \<Longrightarrow> rstrip (a @ w) = a @ rstrip w"
proof -
  assume "w \<noteq> []" "\<not> is_space (hd w)"
  then have "\<not> (\<forall>c\<in>set (rev w). is_space c)" by (cases w) auto
  then have "dropWhile is_space (rev w @ rev a) = dropWhile is_space (rev w) @ rev a"
    by (auto simp: dropWhile_append)
  then show ?thesis by (simp add: rstrip_def)
qed

lemma rstrip_head: "w \<noteq> [] \<Longrightarrow> \<not> is_space (hd w) \<Longrightarrow> rstrip w \<noteq> [] \<and> hd (rstrip w) = hd w"
proof -
  assume w: "w \<noteq> []" "\<not> is_space (hd w)"
  then have "\<not> (\<forall>c\<in>set (rev w). is_space c)" by (cases w) auto
  then have "rstrip w \<noteq> []" by (simp add: rstrip_def dropWhile_eq_Nil_conv)
  with rstrip_ends [of w] show ?thesis by simp
qed

lemma strip_prefix:
  assumes "w \<noteq> []" "\<not> is_space (hd w)"
  shows "strip (a @ w) = lstrip a @ rstrip w" "strip w = rstrip w"
proof -
  from assms have l: "lstrip w = w" by (cases w) (auto simp: lstrip_def)
  then show "strip w = rstrip w" by (simp add: strip_def)
  from assms show "strip (a @ w) = lstrip a @ rstrip w"
    by (simp add: strip_def lstrip_append rstrip_prefix)
qed

lemma sub_ws_append:
  "w \<noteq> [] \<Longrightarrow> \<not> is_space (hd w) \<Longrightarrow> sub_ws (a @ w) = sub_ws a @ sub_ws w"
proof (induction a rule: sub_ws.induct)
  case 1
  then show ?case by simp
next
  case (2 x xs)
  show ?case
  proof (cases "is_space x")
    case True
    from 2(3,4) have "dropWhile is_space (xs @ w) = dropWhile is_space xs @ w"
      by (cases w) (auto simp: dropWhile_append dropWhile_eq_Nil_conv)
    with 2(1) [OF True 2(3,4)] True show ?thesis by simp
  next
    case False
    with 2(2) [OF False 2(3,4)] show ?thesis by simp
  qed
qed

lemma match_here_shift:
  "match_here p s (i + k) (map (\<lambda>x. x + k) ms) = map_option (map (\<lambda>x. x + k)) (match_here p s i ms)"
proof (induction p s i ms rule: match_here.induct)
  case (5 p x xs i ms)
  then show ?case by (cases "match_here (SpaceStar # p) xs (Suc i) ms") auto
next
  case (6 p s i ms)
  from 6 [symmetric] show ?case by simp
next
  case (8 p x xs i ms)
  then show ?case by (cases "match_here p xs (Suc i) ms") auto
next
  case (10 p x xs i ms)
  then show ?case by (cases "match_here (AnyPlusGreedy # p) xs (Suc i) ms") auto
qed auto

lemma re_search_shift:
  "re_search p s (i + k) = map_option (map (\<lambda>x. x + k)) (re_search p s i)"
proof (induction s arbitrary: i)
  case Nil
  show ?case using match_here_shift [of p "[]" i k "[]"] by simp
next
  case (Cons x xs)
  show ?case
    using match_here_shift [of p "x # xs" i k "[]"] Cons [of "Suc i"]
    by (cases "match_here p (x # xs) i []") auto
qed

lemma no_label_no_match: "\<not> label_at intent_label s \<Longrightarrow> match_here pattern s i [] = None"
  unfolding pattern_split by (simp only: match_lits if_False)

lemma re_search_skip:
  "\<forall>j<length A. \<not> label_at intent_label (drop j (A @ W)) \<Longrightarrow>
     re_search pattern (A @ W) i = re_search pattern W (i + length A)"
proof (induction A arbitrary: i)
  case Nil
  then show ?case by simp
next
  case (Cons a A)
  from Cons.prems have "\<not> label_at intent_label (drop 0 ((a # A) @ W))" by blast
  then have 0: "match_here pattern (a # A @ W) i [] = None" by (simp add: no_label_no_match)
  have "\<forall>j<length A. \<not> label_at intent_label (drop j (A @ W))"
  proof (intro allI impI)
    fix j assume "j < length A"
    with Cons.prems have "\<not> label_at intent_label (drop (Suc j) ((a # A) @ W))" by auto
    then show "\<not> label_at intent_label (drop j (A @ W))" by simp
  qed
  from Cons.IH [OF this, of "Suc i"] 0 show ?case by simp
qed

lemma slice_shift: "slice (A @ W) (b + length A) (e + length A) = slice W b e"
  by (simp add: slice_def)

lemma group_shift: "group (A @ W) (map (\<lambda>x. x + length A) m) k = group W m k"
proof (cases "1 \<le> k \<and> 2 * k \<le> length m")
  case True
  then have "2 * k - 2 < length (rev m)" "2 * k - 1 < length (rev m)" by auto
  then have "map (\<lambda>x. x + length A) (rev m) ! (2 * k - 2) = rev m ! (2 * k - 2) + length A"
    "map (\<lambda>x. x + length A) (rev m) ! (2 * k - 1) = rev m ! (2 * k - 1) + length A"
    by (simp_all only: nth_map)
  with True show ?thesis by (simp add: group_def Let_def rev_map slice_shift)
next
  case False
  then show ?thesis by (auto simp: group_def Let_def)
qed

lemma cleaned_prefix:
  assumes "first_label intent_label (pre @ w) = Some (length pre)"
  shows "\<exists>A. sub_ws (strip (pre @ w)) = A @ sub_ws (strip w) \<and>
           (\<forall>j<length A. \<not> label_at intent_label (drop j (A @ sub_ws (strip w))))"
proof -
  note ns = nonspace_labels(1)
  from ns have ch: "\<forall>c\<in>set intent_label. \<forall>x. lit_ic c x \<longrightarrow> \<not> is_space x"
    by (simp add: nonspace_label_def)
  from first_label_Some [OF assms] have la: "label_at intent_label w" by simp
  from label_at_head [OF ns la] have w: "w \<noteq> []" "\<not> is_space (hd w)" by auto
  define t where "t = rev (takeWhile is_space (rev w))"
  have wt: "w = rstrip w @ t" unfolding t_def by (simp add: rstrip_append)
  have t: "all_space t"
    unfolding t_def all_space_def list_all_iff by (auto dest: set_takeWhileD)
  from la wt have lar: "label_at intent_label (rstrip w)"
    using label_at_spaces_tail [OF ch t, of "rstrip w"] by simp
  from label_at_length [OF lar] have len: "7 \<le> length (rstrip w)" by (simp add: label_lengths)
  from rstrip_head [OF w] w have rw: "rstrip w \<noteq> []" "\<not> is_space (hd (rstrip w))" by auto
  define A where "A = sub_ws (lstrip pre)"
  define W where "W = sub_ws (strip w)"
  have W: "W = sub_ws (rstrip w)" unfolding W_def by (simp add: strip_prefix [OF w])
  have c: "sub_ws (strip (pre @ w)) = A @ W"
    unfolding A_def W by (simp add: strip_prefix [OF w] sub_ws_append [OF rw])
  have laW: "label_at intent_label W"
    unfolding W using label_at_sub_ws [OF ch, of "rstrip w"] lar by simp
  from label_at_length [OF laW] have lenW: "7 \<le> length W" by (simp add: label_lengths)
  \<comment> \<open>the first occurrence in the raw text is the one that starts \<open>w\<close>\<close>
  from assms have f0: "find_label intent_label (pre @ w) = Some (drop 7 w)"
    by (simp add: find_label_first label_lengths)
  have "find_label intent_label (lstrip (pre @ w)) = Some (drop 7 w)"
    unfolding lstrip_def using f0 by (simp only: find_label_drop_spaces [OF ns])
  then have f1: "find_label intent_label ((lstrip pre @ rstrip w) @ t) = Some (drop 7 w)"
    using wt by (simp add: lstrip_append [OF w])
  from len have d: "drop 7 w = drop 7 (rstrip w) @ t"
    using wt by (metis diff_is_0_eq' drop_0 drop_append)
  from f1 d have f2: "find_label intent_label (lstrip pre @ rstrip w) = Some (drop 7 (rstrip w))"
    unfolding find_label_spaces_tail [OF ns t] by auto
  have "find_label intent_label (A @ W) = find_label intent_label (sub_ws (lstrip pre @ rstrip w))"
    unfolding A_def W by (simp add: sub_ws_append [OF rw])
  also have "\<dots> = Some (sub_ws (drop 7 (rstrip w)))"
    by (simp add: find_label_sub_ws [OF ns] f2)
  also have "sub_ws (drop 7 (rstrip w)) = drop 7 W"
    unfolding W using sub_ws_drop_label [OF ch lar] by (simp add: label_lengths)
  finally have f3: "find_label intent_label (A @ W) = Some (drop 7 W)" .
  then obtain p where p: "first_label intent_label (A @ W) = Some p"
    and dp: "drop (p + 7) (A @ W) = drop 7 W"
    by (auto simp: find_label_first label_lengths)
  from first_label_bound [OF p] have "p + 7 \<le> length A + length W" by (simp add: label_lengths)
  moreover from dp have "length (drop (p + 7) (A @ W)) = length (drop 7 W)" by simp
  ultimately have "p = length A" using lenW by simp
  with first_label_Some [OF p] have "\<forall>j<length A. \<not> label_at intent_label (drop j (A @ W))"
    by simp
  with c show ?thesis unfolding W_def by blast
qed

lemma prefix_discarded:
  assumes "first_label intent_label (pre @ w) = Some (length pre)"
  shows "validate_and_extract_llm_content (pre @ w) = validate_and_extract_llm_content w"
proof -
  let ?W = "sub_ws (strip w)"
  from cleaned_prefix [OF assms] obtain A where
    c: "sub_ws (strip (pre @ w)) = A @ ?W"
    and n: "\<forall>j<length A. \<not> label_at intent_label (drop j (A @ ?W))"
    by blast
  from re_search_skip [OF n, of 0] re_search_shift [of pattern ?W 0 "length A"]
  have s: "re_search pattern (A @ ?W) 0 = map_option (map (\<lambda>x. x + length A)) (re_search pattern ?W 0)"
    by simp
  show ?thesis
  proof (cases "re_search pattern ?W 0")
    case None
    with s c show ?thesis by (simp add: validate_no_match)
  next
    case (Some m)
    with s c have m': "re_search pattern (sub_ws (strip (pre @ w))) 0 = Some (map (\<lambda>x. x + length A) m)"
      by simp
    from search_groups [OF Some] obtain gi gn gr where
      g: "group ?W m 1 = Some gi" "group ?W m 2 = Some gn" "group ?W m 3 = Some gr"
      by blast
    then have g': "group (sub_ws (strip (pre @ w))) (map (\<lambda>x. x + length A) m) 1 = Some gi"
      "group (sub_ws (strip (pre @ w))) (map (\<lambda>x. x + length A) m) 2 = Some gn"
      "group (sub_ws (strip (pre @ w))) (map (\<lambda>x. x + length A) m) 3 = Some gr"
      unfolding c by (simp_all only: group_shift)
    show ?thesis
      unfolding validate_match [OF Some g] validate_match [OF m' g'] ..
  qed
qed

section \<open>Both functions return\<close>

text \<open>The \<open>AttributeError\<close> branches are never taken: every call returns a result.\<close>

lemma compute_score_no_error:
  "compute_score lower solution_str ground_truth std_format std_acc \<noteq> Inl e"
  using validate_cases [of solution_str]
  by (auto simp: compute_score_def Let_def split: if_splits)

section \<open>The score of a solution\<close>

text \<open>
  Claim C1.  When the extraction of the solution fails (its validity flag is false),
  the score is \<open>- std_format - std_acc\<close>, \<open>acc\<close> is false and \<open>pred\<close> is the
  solution text as given, behind the format-failure tag, whatever the ground truth and
  the weights are: the result does not mention the ground truth.
\<close>

theorem compute_score_invalid_format:
  fixes std_format std_acc :: "'n::ab_group_add"
  assumes "validate_and_extract_llm_content solution_str = Inr (False, intent, node, reason)"
  shows "compute_score lower solution_str ground_truth std_format std_acc =
           Inr \<lparr>score = - std_format - std_acc, acc = False,
                pred = tag_format_fail @ solution_str\<rparr>"
  using assms by (simp add: compute_score_def)

theorem compute_score_invalid_format_witness:
  "validate_and_extract_llm_content (ustr ''Intent:  Node: Node-1 Reason: t'') =
     Inr (False, None, None, None) \<and>
   compute_score lower_ascii (ustr ''Intent:  Node: Node-1 Reason: t'') (GtStr (ustr ''Node-1''))
       (1::int) 3 =
     Inr \<lparr>score = - 4, acc = False,
          pred = tag_format_fail @ ustr ''Intent:  Node: Node-1 Reason: t''\<rparr>"
proof -
  have h: "validate_and_extract_llm_content (ustr ''Intent:  Node: Node-1 Reason: t'') =
     Inr (False, None, None, None)"
    by (simp add: eval_defs)
  show ?thesis
    using h compute_score_invalid_format [OF h, of lower_ascii "GtStr (ustr ''Node-1'')" "1::int" 3]
    by simp
qed

text \<open>
  Claim C2.  When the extraction succeeds with the fields \<open>intent\<close>, \<open>node\<close> and
  \<open>reason\<close>: if the lower-cased node is one of the trimmed, lower-cased candidates of
  the ground truth, the score is \<open>std_format + std_acc\<close> and \<open>acc\<close> is true;
  otherwise the score is \<open>std_format - std_acc\<close> and \<open>acc\<close> is false.  In both
  cases \<open>pred\<close> is the status tag followed by the three fields in the template
  \<open>Intent: ...\<close>, newline, \<open>Node: ...\<close>, newline, \<open>Reason: ...\<close>.
\<close>

theorem compute_score_valid_format:
  fixes std_format std_acc :: "'n::ab_group_add"
  assumes "validate_and_extract_llm_content solution_str =
             Inr (True, Some intent, Some node, Some reason)"
  shows "compute_score lower solution_str ground_truth std_format std_acc =
           (if lower node \<in> (\<lambda>c. lower (strip c)) ` set (candidates ground_truth)
            then Inr \<lparr>score = std_format + std_acc, acc = True,
                      pred = tag_format_ok_node_ok @ ustr ''Intent: '' @ intent @ [10] @
                             ustr ''Node: '' @ node @ [10] @ ustr ''Reason: '' @ reason\<rparr>
            else Inr \<lparr>score = std_format - std_acc, acc = False,
                      pred = tag_format_ok_node_fail @ ustr ''Intent: '' @ intent @ [10] @
                             ustr ''Node: '' @ node @ [10] @ ustr ''Reason: '' @ reason\<rparr>)"
  using assms by (simp add: compute_score_def true_nodes_def template_def fmt_def add.commute)

theorem compute_score_valid_format_witness:
  "validate_and_extract_llm_content (ustr ''Intent: a Node: Node-1 Reason: b'') =
     Inr (True, Some (ustr ''a''), Some (ustr ''Node-1''), Some (ustr ''b'')) \<and>
   compute_score lower_ascii (ustr ''Intent: a Node: Node-1 Reason: b'')
       (GtStr (ustr ''Node-2, node-1 '')) (1::int) 3 =
     Inr \<lparr>score = 4, acc = True,
          pred = tag_format_ok_node_ok @ ustr ''Intent: a'' @ [10] @ ustr ''Node: Node-1'' @ [10] @
                 ustr ''Reason: b''\<rparr> \<and>
   compute_score lower_ascii (ustr ''Intent: a Node: Node-1 Reason: b'')
       (GtStr (ustr ''Node-2,Node-3'')) (1::int) 3 =
     Inr \<lparr>score = - 2, acc = False,
          pred = tag_format_ok_node_fail @ ustr ''Intent: a'' @ [10] @ ustr ''Node: Node-1'' @ [10] @
                 ustr ''Reason: b''\<rparr>"
proof -
  have h: "validate_and_extract_llm_content (ustr ''Intent: a Node: Node-1 Reason: b'') =
     Inr (True, Some (ustr ''a''), Some (ustr ''Node-1''), Some (ustr ''b''))"
    by (simp add: eval_defs)
  have c1: "lower_ascii (ustr ''Node-1'') \<in>
      (\<lambda>c. lower_ascii (strip c)) ` set (candidates (GtStr (ustr ''Node-2, node-1 '')))"
    by (simp add: eval_defs lower_ascii_def candidates_def)
  have c2: "lower_ascii (ustr ''Node-1'') \<notin>
      (\<lambda>c. lower_ascii (strip c)) ` set (candidates (GtStr (ustr ''Node-2,Node-3'')))"
    by (simp add: eval_defs lower_ascii_def candidates_def)
  show ?thesis
    using h c1 c2
      compute_score_valid_format [OF h, of lower_ascii "GtStr (ustr ''Node-2, node-1 '')" "1::int" 3]
      compute_score_valid_format [OF h, of lower_ascii "GtStr (ustr ''Node-2,Node-3'')" "1::int" 3]
    by (simp add: ustr_def)
qed

text \<open>
  Claim C8.  A ground truth given as one string scores as the sequence of its
  comma-separated pieces does; and a sequence of comma-free labels scores as the
  string that joins them with a comma and any whitespace after it, such as
  \<open>A, b, C\<close> for the sequence \<open>A\<close>, \<open>b\<close>, \<open>C\<close>: score, \<open>acc\<close> and \<open>pred\<close> are the
  same.
\<close>

theorem ground_truth_string_or_sequence:
  "compute_score lower solution_str (GtStr g) std_format std_acc =
     compute_score lower solution_str (GtSeq (split_comma g)) std_format std_acc \<and>
   (all_space ws \<and> xs \<noteq> [] \<and> list_all (\<lambda>x. 44 \<notin> set x) xs \<longrightarrow>
     compute_score lower solution_str (GtStr (join (44 # ws) xs)) std_format std_acc =
       compute_score lower solution_str (GtSeq xs) std_format std_acc)"
proof (intro conjI impI)
  show "compute_score lower solution_str (GtStr g) std_format std_acc =
     compute_score lower solution_str (GtSeq (split_comma g)) std_format std_acc"
    by (rule compute_score_true_nodes) (simp add: true_nodes_def candidates_def)
next
  assume "all_space ws \<and> xs \<noteq> [] \<and> list_all (\<lambda>x. 44 \<notin> set x) xs"
  then have "true_nodes lower (GtStr (join (44 # ws) xs)) = true_nodes lower (GtSeq xs)"
    using candidates_join [of ws xs lower]
    by (simp add: true_nodes_def candidates_def list_all_iff)
  then show "compute_score lower solution_str (GtStr (join (44 # ws) xs)) std_format std_acc =
       compute_score lower solution_str (GtSeq xs) std_format std_acc"
    by (rule compute_score_true_nodes)
qed

theorem ground_truth_string_or_sequence_witness:
  "all_space [32] \<and> list_all (\<lambda>x. 44 \<notin> set x) [ustr ''A'', ustr ''b'', ustr ''C''] \<and>
   join (44 # [32]) [ustr ''A'', ustr ''b'', ustr ''C''] = ustr ''A, b, C'' \<and>
   compute_score lower_ascii (ustr ''Intent: a Node: B Reason: r'') (GtStr (ustr ''A, b, C''))
       (1::int) 3 =
     compute_score lower_ascii (ustr ''Intent: a Node: B Reason: r'')
       (GtSeq [ustr ''A'', ustr ''b'', ustr ''C'']) 1 3 \<and>
   compute_score lower_ascii (ustr ''Intent: a Node: B Reason: r'')
       (GtSeq [ustr ''A'', ustr ''b'', ustr ''C'']) (1::int) 3 =
     Inr \<lparr>score = 4, acc = True,
          pred = tag_format_ok_node_ok @ ustr ''Intent: a'' @ [10] @ ustr ''Node: B'' @ [10] @
                 ustr ''Reason: r''\<rparr>"
proof -
  have a: "all_space [32]" by (simp add: all_space_def is_space_def)
  have b: "list_all (\<lambda>x. 44 \<notin> set x) [ustr ''A'', ustr ''b'', ustr ''C'']"
    by (simp add: ustr_def)
  have c: "[ustr ''A'', ustr ''b'', ustr ''C''] \<noteq> []" by simp
  have j: "join (44 # [32]) [ustr ''A'', ustr ''b'', ustr ''C''] = ustr ''A, b, C''"
    by (simp add: ustr_def)
  have v: "compute_score lower_ascii (ustr ''Intent: a Node: B Reason: r'')
       (GtSeq [ustr ''A'', ustr ''b'', ustr ''C'']) (1::int) 3 =
     Inr \<lparr>score = 4, acc = True,
          pred = tag_format_ok_node_ok @ ustr ''Intent: a'' @ [10] @ ustr ''Node: B'' @ [10] @
                 ustr ''Reason: r''\<rparr>"
    by (simp add: eval_defs compute_score_def true_nodes_def candidates_def lower_ascii_def
        template_def fmt_def)
  from a b c
    ground_truth_string_or_sequence [of lower_ascii "ustr ''Intent: a Node: B Reason: r''"
      "ustr ''A, b, C''" "1::int" 3 "[32]" "[ustr ''A'', ustr ''b'', ustr ''C'']"]
  have e: "compute_score lower_ascii (ustr ''Intent: a Node: B Reason: r'')
       (GtStr (join (44 # [32]) [ustr ''A'', ustr ''b'', ustr ''C''])) (1::int) 3 =
     compute_score lower_ascii (ustr ''Intent: a Node: B Reason: r'')
       (GtSeq [ustr ''A'', ustr ''b'', ustr ''C'']) 1 3"
    by blast
  from a b j e [unfolded j] v show ?thesis by blast
qed

section \<open>Inputs the extractor rejects\<close>

text \<open>
  Claim C3.  An input in which one of the three labels (the word with its colon, in
  any letter-case) does not occur, or in which the labels do not occur in the order
  Intent, Node, Reason, is rejected: the validity flag is false and the three fields
  are \<open>None\<close>.
\<close>

theorem missing_or_misordered_labels_invalid:
  assumes "find_label intent_label content = None \<or> find_label node_label content = None \<or>
           find_label reason_label content = None \<or> \<not> labels_in_order content"
  shows "validate_and_extract_llm_content content = Inr (False, None, None, None)"
  using assms valid_labels_in_order [of content] missing_label_not_in_order [of content]
  by blast

theorem missing_or_misordered_labels_invalid_witness:
  "(find_label reason_label (ustr ''Intent: t Node: Node-1'') = None \<and>
    validate_and_extract_llm_content (ustr ''Intent: t Node: Node-1'') =
      Inr (False, None, None, None)) \<and>
   (find_label intent_label (ustr ''Node: Node-1 Intent: t Reason: t'') \<noteq> None \<and>
    find_label node_label (ustr ''Node: Node-1 Intent: t Reason: t'') \<noteq> None \<and>
    find_label reason_label (ustr ''Node: Node-1 Intent: t Reason: t'') \<noteq> None \<and>
    \<not> labels_in_order (ustr ''Node: Node-1 Intent: t Reason: t'') \<and>
    validate_and_extract_llm_content (ustr ''Node: Node-1 Intent: t Reason: t'') =
      Inr (False, None, None, None))"
proof -
  have h1: "find_label reason_label (ustr ''Intent: t Node: Node-1'') = None"
    by (simp add: eval_defs reason_label_def)
  have h2: "\<not> labels_in_order (ustr ''Node: Node-1 Intent: t Reason: t'')"
    by (simp add: eval_defs labels_in_order_def intent_label_def node_label_def reason_label_def)
  have h3: "find_label intent_label (ustr ''Node: Node-1 Intent: t Reason: t'') \<noteq> None"
    "find_label node_label (ustr ''Node: Node-1 Intent: t Reason: t'') \<noteq> None"
    "find_label reason_label (ustr ''Node: Node-1 Intent: t Reason: t'') \<noteq> None"
    by (simp_all add: eval_defs intent_label_def node_label_def reason_label_def)
  show ?thesis
    using h1 h2 h3
      missing_or_misordered_labels_invalid [of "ustr ''Intent: t Node: Node-1''"]
      missing_or_misordered_labels_invalid [of "ustr ''Node: Node-1 Intent: t Reason: t''"]
    by blast
qed

text \<open>
  Claim C9.  A label word that is separated from its colon by whitespace is not an
  occurrence of the label, and an input whose only candidate for one of the labels is
  such a word is rejected.
\<close>

theorem label_needs_adjacent_colon:
  assumes lab: "lab = intent_label \<or> lab = node_label \<or> lab = reason_label"
    and W: "list_all2 lit_ic (butlast lab) W"
    and sp: "sp \<noteq> []" "all_space sp"
    and c: "content = pre @ W @ sp @ 58 # post"
    and other: "\<forall>p. p \<noteq> length pre \<longrightarrow> \<not> label_at lab (drop p content)"
  shows "\<not> label_at lab (drop (length pre) content) \<and>
         validate_and_extract_llm_content content = Inr (False, None, None, None)"
proof -
  from lab have ne: "lab \<noteq> []" and last: "last lab = 58"
    by (auto simp: intent_label_def node_label_def reason_label_def ustr_def)
  from lab have ns: "nonspace_label lab" using nonspace_labels by auto
  from sp obtain y ys where y: "sp = y # ys" "is_space y"
    by (cases sp) (auto simp: all_space_def)
  have here: "\<not> label_at lab (drop (length pre) content)"
  proof
    assume "label_at lab (drop (length pre) content)"
    with c have "label_at lab (W @ sp @ 58 # post)" by simp
    then obtain L r where L: "W @ sp @ 58 # post = L @ r" "list_all2 lit_ic lab L"
      unfolding label_at_iff by blast
    from W have lw: "length W = length lab - 1" by (auto dest: list_all2_lengthD)
    from L(2) have ll: "length L = length lab" by (auto dest: list_all2_lengthD)
    from ne lw ll have "length W < length L" by (cases lab) auto
    with L(1) y have "L ! length W = y"
      by (metis append_Cons nth_append nth_append_length order_less_irrefl)
    moreover have lt: "length W < length lab" using ne lw by (cases lab) auto
    moreover from list_all2_nthD [OF L(2) lt] have "lit_ic (lab ! length W) (L ! length W)" .
    moreover from lt have "lab ! length W \<in> set lab" by simp
    ultimately show False using ns y(2) by (auto simp: nonspace_label_def)
  qed
  with other have "\<forall>p. \<not> label_at lab (drop p content)" by (metis (full_types))
  with ne have "find_label lab content = None" by (simp add: find_label_none_iff)
  with lab have "\<not> labels_in_order content"
    using missing_label_not_in_order [of content] by blast
  with valid_labels_in_order [of content] here show ?thesis by blast
qed

theorem label_needs_adjacent_colon_witness:
  "list_all2 lit_ic (butlast intent_label) (ustr ''Intent'') \<and> all_space [32] \<and>
   ustr ''Intent : x Node: y Reason: z'' =
     [] @ ustr ''Intent'' @ [32] @ 58 # ustr '' x Node: y Reason: z'' \<and>
   find_label intent_label (ustr ''Intent : x Node: y Reason: z'') = None \<and>
   \<not> label_at intent_label (drop (length ([] :: ustr)) (ustr ''Intent : x Node: y Reason: z'')) \<and>
   validate_and_extract_llm_content (ustr ''Intent : x Node: y Reason: z'') =
     Inr (False, None, None, None)"
proof -
  have w: "list_all2 lit_ic (butlast intent_label) (ustr ''Intent'')"
    by (simp add: eval_defs intent_label_def)
  have sp: "[32] \<noteq> ([] :: ustr)" "all_space [32]"
    by (simp_all add: all_space_def is_space_def)
  have c: "ustr ''Intent : x Node: y Reason: z'' =
      [] @ ustr ''Intent'' @ [32] @ 58 # ustr '' x Node: y Reason: z''"
    by (simp add: ustr_def)
  have none: "find_label intent_label (ustr ''Intent : x Node: y Reason: z'') = None"
    by (simp add: eval_defs intent_label_def)
  then have other: "\<forall>p. p \<noteq> length ([] :: ustr) \<longrightarrow>
      \<not> label_at intent_label (drop p (ustr ''Intent : x Node: y Reason: z''))"
    by (simp add: find_label_none_iff label_nonempty)
  show ?thesis
    using w sp(2) c none label_needs_adjacent_colon [OF disjI1 [OF refl] w sp c other]
    by blast
qed

text \<open>
  Claim C4.  When the normalised input matches the pattern but one of the three
  captured groups is empty after trimming, the extraction is rejected with all three
  fields \<open>None\<close>.
\<close>

theorem empty_field_invalid:
  assumes "re_search pattern (sub_ws (strip content)) 0 = Some m"
    and "k = 1 \<or> k = 2 \<or> k = 3"
    and "group (sub_ws (strip content)) m k = Some g"
    and "strip g = []"
  shows "validate_and_extract_llm_content content = Inr (False, None, None, None)"
proof -
  from search_groups [OF assms(1)] obtain gi gn gr where
    g: "group (sub_ws (strip content)) m 1 = Some gi" "group (sub_ws (strip content)) m 2 = Some gn"
       "group (sub_ws (strip content)) m 3 = Some gr"
    by blast
  with assms(2-4) have "strip gi = [] \<or> strip gn = [] \<or> strip gr = []" by auto
  with assms(1) g show ?thesis
    by (auto simp: validate_and_extract_llm_content_def)
qed

theorem empty_field_invalid_witness:
  "re_search pattern (sub_ws (strip (ustr ''Intent:  Node: Node-1 Reason: t''))) 0 =
     Some [30, 29, 20, 14, 8, 7] \<and>
   group (sub_ws (strip (ustr ''Intent:  Node: Node-1 Reason: t''))) [30, 29, 20, 14, 8, 7] 1 =
     Some [32] \<and>
   strip [32] = [] \<and>
   validate_and_extract_llm_content (ustr ''Intent:  Node: Node-1 Reason: t'') =
     Inr (False, None, None, None)"
proof -
  have m: "re_search pattern (sub_ws (strip (ustr ''Intent:  Node: Node-1 Reason: t''))) 0 =
     Some [30, 29, 20, 14, 8, 7]"
    by (simp add: eval_defs)
  have g: "group (sub_ws (strip (ustr ''Intent:  Node: Node-1 Reason: t''))) [30, 29, 20, 14, 8, 7] 1 =
     Some [32]"
    by (simp add: eval_defs)
  have e: "strip [32] = []"
    by (simp add: eval_defs)
  show ?thesis
    using m g e empty_field_invalid [OF m disjI1 [OF refl] g e] by blast
qed

section \<open>What the extractor returns\<close>

text \<open>
  Claim C6.  Each field of a successful extraction is a part of the normalised input;
  it has no newline, its only whitespace characters are single SPACEs, and it neither
  begins nor ends with whitespace.
\<close>

theorem extracted_fields_tidy:
  assumes "validate_and_extract_llm_content content = Inr (True, Some intent, Some node, Some reason)"
  shows "(tidy intent \<and> (\<exists>a b. sub_ws (strip content) = a @ intent @ b)) \<and>
         (tidy node \<and> (\<exists>a b. sub_ws (strip content) = a @ node @ b)) \<and>
         (tidy reason \<and> (\<exists>a b. sub_ws (strip content) = a @ reason @ b))"
proof -
  let ?w = "sub_ws (strip content)"
  from assms validate_cases [of content] obtain m gi gn gr where
    m: "re_search pattern ?w 0 = Some m"
    and g: "group ?w m 1 = Some gi" "group ?w m 2 = Some gn" "group ?w m 3 = Some gr"
    and f: "intent = strip gi" "node = strip gn" "reason = strip gr"
    and ne: "strip gi \<noteq> []" "strip gn \<noteq> []" "strip gr \<noteq> []"
    by auto
  from g have "\<exists>i j. gi = slice ?w i j" "\<exists>i j. gn = slice ?w i j" "\<exists>i j. gr = slice ?w i j"
    by (auto simp: group_def Let_def split: if_splits)
  with f have i: "\<exists>a b. ?w = a @ intent @ b" "\<exists>a b. ?w = a @ node @ b" "\<exists>a b. ?w = a @ reason @ b"
    using strip_slice_infix [of ?w] by auto
  from i f ne have "tidy intent" "tidy node" "tidy reason"
    by (auto intro: tidy_field)
  with i show ?thesis by blast
qed

theorem extracted_fields_tidy_witness:
  "validate_and_extract_llm_content
     (ustr ''Intent: multi'' @ [10] @ ustr ''line test Node: Node-5'' @ [10] @
      ustr ''Reason:  wrap'' @ [10, 9] @ ustr ''here '') =
     Inr (True, Some (ustr ''multi line test''), Some (ustr ''Node-5''), Some (ustr ''wrap here'')) \<and>
   tidy (ustr ''multi line test'') \<and> tidy (ustr ''Node-5'') \<and> tidy (ustr ''wrap here'')"
proof -
  have h: "validate_and_extract_llm_content
     (ustr ''Intent: multi'' @ [10] @ ustr ''line test Node: Node-5'' @ [10] @
      ustr ''Reason:  wrap'' @ [10, 9] @ ustr ''here '') =
     Inr (True, Some (ustr ''multi line test''), Some (ustr ''Node-5''), Some (ustr ''wrap here''))"
    by (simp add: eval_defs)
  show ?thesis
    using h extracted_fields_tidy [OF h] by blast
qed

text \<open>
  Claim C5.  Changing the letter-case of ASCII letters of the input never changes
  whether the extraction is valid, and the extracted fields change at most in the
  letter-case of their letters.  When the change leaves the text captured by the
  three groups as it is, as a change of the label tokens does, the result is the
  same: validity, intent, node and reason.
\<close>

theorem label_case_invariant:
  assumes "recased s s'"
  shows "((validate_and_extract_llm_content s' = Inr (False, None, None, None)) =
          (validate_and_extract_llm_content s = Inr (False, None, None, None))) \<and>
         (\<forall>i n r. validate_and_extract_llm_content s = Inr (True, Some i, Some n, Some r) \<longrightarrow>
            (\<exists>i' n' r'. validate_and_extract_llm_content s' = Inr (True, Some i', Some n', Some r') \<and>
               recased i i' \<and> recased n n' \<and> recased r r')) \<and>
         (fields_untouched s s' \<longrightarrow>
            validate_and_extract_llm_content s' = validate_and_extract_llm_content s)"
proof -
  let ?w = "sub_ws (strip s)" and ?w' = "sub_ws (strip s')"
  from assms have w: "list_all2 case_var ?w ?w'"
    unfolding recased_def by (rule cleaned_recased)
  then have se: "re_search pattern ?w' 0 = re_search pattern ?w 0"
    by (rule re_search_recased)
  show ?thesis
  proof (cases "re_search pattern ?w 0")
    case None
    with se have "re_search pattern ?w' 0 = None" by simp
    with None show ?thesis by (simp add: validate_no_match)
  next
    case (Some m)
    with se have m': "re_search pattern ?w' 0 = Some m" by simp
    from search_groups [OF Some] obtain gi gn gr where
      g: "group ?w m 1 = Some gi" "group ?w m 2 = Some gn" "group ?w m 3 = Some gr"
      by blast
    from group_recased [OF w g(1)] group_recased [OF w g(2)] group_recased [OF w g(3)]
    obtain gi' gn' gr' where
      g': "group ?w' m 1 = Some gi'" "group ?w' m 2 = Some gn'" "group ?w' m 3 = Some gr'"
      and r: "list_all2 case_var (strip gi) (strip gi')" "list_all2 case_var (strip gn) (strip gn')"
        "list_all2 case_var (strip gr) (strip gr')"
      by blast
    from r have e: "(strip gi' = []) = (strip gi = [])" "(strip gn' = []) = (strip gn = [])"
      "(strip gr' = []) = (strip gr = [])"
      by (auto simp: list_all2_Nil list_all2_Nil2)
    note v = validate_match [OF Some g] and v' = validate_match [OF m' g']
    have 1: "(validate_and_extract_llm_content s' = Inr (False, None, None, None)) =
          (validate_and_extract_llm_content s = Inr (False, None, None, None))"
      unfolding v v' using e by simp
    have 2: "\<exists>i' n' r'. validate_and_extract_llm_content s' = Inr (True, Some i', Some n', Some r') \<and>
               recased i i' \<and> recased n n' \<and> recased r r'"
      if "validate_and_extract_llm_content s = Inr (True, Some i, Some n, Some r)" for i n r
      using that r e unfolding v v' recased_def by (auto split: if_splits)
    have 3: "validate_and_extract_llm_content s' = validate_and_extract_llm_content s"
      if "fields_untouched s s'"
    proof -
      from that Some g g' have "gi' = gi" "gn' = gn" "gr' = gr"
        by (simp_all add: fields_untouched_def)
      then show ?thesis unfolding v v' by simp
    qed
    from 1 2 3 show ?thesis by blast
  qed
qed

theorem label_case_invariant_witness:
  "recased (ustr ''Intent: x Node: Node-6 Reason: y'') (ustr ''iNtEnT: x nOdE: Node-6 rEaSoN: y'') \<and>
   fields_untouched (ustr ''Intent: x Node: Node-6 Reason: y'')
     (ustr ''iNtEnT: x nOdE: Node-6 rEaSoN: y'') \<and>
   validate_and_extract_llm_content (ustr ''Intent: x Node: Node-6 Reason: y'') =
     Inr (True, Some (ustr ''x''), Some (ustr ''Node-6''), Some (ustr ''y'')) \<and>
   validate_and_extract_llm_content (ustr ''iNtEnT: x nOdE: Node-6 rEaSoN: y'') =
     validate_and_extract_llm_content (ustr ''Intent: x Node: Node-6 Reason: y'')"
proof -
  have r: "recased (ustr ''Intent: x Node: Node-6 Reason: y'') (ustr ''iNtEnT: x nOdE: Node-6 rEaSoN: y'')"
    by (simp add: recased_def case_var_def ustr_def to_lower_ascii_def)
  have f: "fields_untouched (ustr ''Intent: x Node: Node-6 Reason: y'')
     (ustr ''iNtEnT: x nOdE: Node-6 rEaSoN: y'')"
    by (simp add: fields_untouched_def eval_defs)
  have v: "validate_and_extract_llm_content (ustr ''Intent: x Node: Node-6 Reason: y'') =
     Inr (True, Some (ustr ''x''), Some (ustr ''Node-6''), Some (ustr ''y''))"
    by (simp add: eval_defs)
  from r f v label_case_invariant [OF r] show ?thesis by blast
qed

text \<open>
  The condition on the captured text is needed for equal fields: a word that looks
  like a label but lies inside a captured field is field text, and changing its case
  changes the field by just that.
\<close>

lemma recased_field_text:
  "recased (ustr ''Intent: a Node: b Reason: see node: c'')
     (ustr ''Intent: a Node: b Reason: see NODE: c'') \<and>
   validate_and_extract_llm_content (ustr ''Intent: a Node: b Reason: see node: c'') =
     Inr (True, Some (ustr ''a''), Some (ustr ''b''), Some (ustr ''see node: c'')) \<and>
   validate_and_extract_llm_content (ustr ''Intent: a Node: b Reason: see NODE: c'') =
     Inr (True, Some (ustr ''a''), Some (ustr ''b''), Some (ustr ''see NODE: c''))"
  by (simp add: eval_defs recased_def case_var_def)

text \<open>
  Claim C7.  Text before the first occurrence of the Intent label is discarded: the
  result is that of the input without it.  In a successful extraction the normalised
  input ends with a Reason label, whitespace and the reason field, so the reason
  field runs to the end of the text.
\<close>

theorem prefix_discarded_reason_to_end:
  "(first_label intent_label (pre @ w) = Some (length pre) \<longrightarrow>
      validate_and_extract_llm_content (pre @ w) = validate_and_extract_llm_content w) \<and>
   (validate_and_extract_llm_content content = Inr (True, Some intent, Some node, Some reason) \<longrightarrow>
      (\<exists>u L sp. sub_ws (strip content) = u @ L @ sp @ reason \<and>
         list_all2 lit_ic reason_label L \<and> all_space sp))"
  using prefix_discarded [of pre w] reason_to_end [of content intent node reason] by blast

theorem prefix_discarded_reason_to_end_witness:
  "first_label intent_label
     ([21069, 32622, 20869, 23481, 32] @
      (ustr ''Intent: '' @ [27979, 35797] @ ustr '' Node: Node-1 Reason: '' @ [27979, 35797, 32] @
       [21518, 32622, 20869, 23481])) =
     Some (length [21069, 32622, 20869, 23481, 32 :: nat]) \<and>
   validate_and_extract_llm_content
     ([21069, 32622, 20869, 23481, 32] @
      (ustr ''Intent: '' @ [27979, 35797] @ ustr '' Node: Node-1 Reason: '' @ [27979, 35797, 32] @
       [21518, 32622, 20869, 23481])) =
     Inr (True, Some [27979, 35797], Some (ustr ''Node-1''),
          Some [27979, 35797, 32, 21518, 32622, 20869, 23481]) \<and>
   validate_and_extract_llm_content
     (ustr ''Intent: '' @ [27979, 35797] @ ustr '' Node: Node-1 Reason: '' @ [27979, 35797, 32] @
       [21518, 32622, 20869, 23481]) =
     Inr (True, Some [27979, 35797], Some (ustr ''Node-1''),
          Some [27979, 35797, 32, 21518, 32622, 20869, 23481]) \<and>
   (\<exists>u L sp.
      sub_ws (strip
        (ustr ''Intent: '' @ [27979, 35797] @ ustr '' Node: Node-1 Reason: '' @ [27979, 35797, 32] @
         [21518, 32622, 20869, 23481])) =
        u @ L @ sp @ [27979, 35797, 32, 21518, 32622, 20869, 23481] \<and>
      list_all2 lit_ic reason_label L \<and> all_space sp)"
proof -
  let ?pre = "[21069, 32622, 20869, 23481, 32 :: nat]"
  let ?w = "ustr ''Intent: '' @ [27979, 35797] @ ustr '' Node: Node-1 Reason: '' @
    [27979, 35797, 32] @ [21518, 32622, 20869, 23481]"
  have f: "first_label intent_label (?pre @ ?w) = Some (length ?pre)"
    by (simp add: eval_defs intent_label_def)
  have v: "validate_and_extract_llm_content ?w =
     Inr (True, Some [27979, 35797], Some (ustr ''Node-1''),
          Some [27979, 35797, 32, 21518, 32622, 20869, 23481])"
    by (simp add: eval_defs)
  note t = prefix_discarded_reason_to_end [of ?pre ?w ?w "[27979, 35797]" "ustr ''Node-1''"
      "[27979, 35797, 32, 21518, 32622, 20869, 23481]"]
  from t f have e: "validate_and_extract_llm_content (?pre @ ?w) = validate_and_extract_llm_content ?w"
    by blast
  from t v have x: "\<exists>u L sp. sub_ws (strip ?w) =
        u @ L @ sp @ [27979, 35797, 32, 21518, 32622, 20869, 23481] \<and>
      list_all2 lit_ic reason_label L \<and> all_space sp"
    by blast
  from f e v x show ?thesis by (simp only:) 
qed

text \<open>
  Claim C10.  The delimiters are matched in any letter-case inside a field too: the
  upper-case \<open>NODE:\<close> in the intended intent text ends the intent field, and what
  follows it, the literal \<open>Node:\<close> included, becomes the node field.
\<close>

theorem delimiter_inside_intent_any_case:
  "validate_and_extract_llm_content (ustr ''Intent: go to NODE: x Node: y Reason: z'') =
     Inr (True, Some (ustr ''go to''), Some (ustr ''x Node: y''), Some (ustr ''z''))"
  by (simp add: eval_defs)

end
